theory Spec2Isabelle
  imports Main "HOL-Library.Multiset" "HOL-Library.Product_Lexorder" "HOL-Library.List_Lexorder"
begin

section \<open>Python values used by the maze game\<close>

text \<open>
  A cell is the two-element list \<open>[x, y]\<close> (or the tuple \<open>(x, y)\<close>) of the source, a maze
  is a list of rows of integers (\<open>1\<close> wall, \<open>0\<close> path), read as \<open>maze[y][x]\<close>.
  Exceptions are values of \<open>py_error\<close>; a function that can raise returns a sum.
\<close>

type_synonym cell = "int \<times> int"
type_synonym maze = "int list list"

datatype py_error = IndexError | ValueError | ZeroDivisionError

text \<open>\<open>xs[i]\<close>: negative indices count from the end, anything else out of range raises.\<close>

definition py_index :: "'a list \<Rightarrow> int \<Rightarrow> py_error + 'a" where
  "py_index xs i =
     (let n = int (length xs)
      in if 0 \<le> i \<and> i < n then Inr (xs ! nat i)
         else if - n \<le> i \<and> i < 0 then Inr (xs ! nat (n + i))
         else Inl IndexError)"

text \<open>\<open>xs[i] = v\<close>.\<close>

definition py_assign :: "'a list \<Rightarrow> int \<Rightarrow> 'a \<Rightarrow> py_error + 'a list" where
  "py_assign xs i v =
     (let n = int (length xs)
      in if 0 \<le> i \<and> i < n then Inr (xs[nat i := v])
         else if - n \<le> i \<and> i < 0 then Inr (xs[nat (n + i) := v])
         else Inl IndexError)"

text \<open>\<open>maze[y][x]\<close> and \<open>maze[y][x] = v\<close>.\<close>

definition maze_get :: "maze \<Rightarrow> int \<Rightarrow> int \<Rightarrow> py_error + int" where
  "maze_get maze x y =
     (case py_index maze y of Inl e \<Rightarrow> Inl e | Inr row \<Rightarrow> py_index row x)"

definition maze_set :: "maze \<Rightarrow> int \<Rightarrow> int \<Rightarrow> int \<Rightarrow> py_error + maze" where
  "maze_set maze x y v =
     (case py_index maze y of
        Inl e \<Rightarrow> Inl e
      | Inr row \<Rightarrow>
          (case py_assign row x v of
             Inl e \<Rightarrow> Inl e
           | Inr row' \<Rightarrow> py_assign maze y row'))"

text \<open>
  The test \<open>0 <= nx < width and 0 <= ny < height and maze[ny][nx] == 0\<close> that every
  search and both patrol builders apply to a neighbour. The lookup is only made inside
  the bounds given by \<open>width\<close> and \<open>height\<close>; it raises when the row is shorter.
\<close>

definition cell_open :: "maze \<Rightarrow> int \<Rightarrow> int \<Rightarrow> int \<Rightarrow> int \<Rightarrow> py_error + bool" where
  "cell_open maze width height nx ny =
     (if 0 \<le> nx \<and> nx < width \<and> 0 \<le> ny \<and> ny < height
      then (case maze_get maze nx ny of Inl e \<Rightarrow> Inl e | Inr v \<Rightarrow> Inr (v = 0))
      else Inr False)"

text \<open>A grid in the sense of the data model: \<open>height\<close> rows of \<open>width\<close> cells each.\<close>

definition rect_maze :: "maze \<Rightarrow> int \<Rightarrow> int \<Rightarrow> bool" where
  "rect_maze maze width height \<longleftrightarrow>
     int (length maze) = height \<and> list_all (\<lambda>row. int (length row) = width) maze"

text \<open>The Path cells inside the bounds, as a predicate on a cell.\<close>

definition is_path :: "maze \<Rightarrow> int \<Rightarrow> int \<Rightarrow> cell \<Rightarrow> bool" where
  "is_path maze width height c \<longleftrightarrow> cell_open maze width height (fst c) (snd c) = Inr True"

subsection \<open>The random source\<close>

text \<open>
  The global generator of module \<open>random\<close> is an oracle: an infinite sequence of draws,
  threaded through every function that draws. Each library call reduces the next draw
  to its range, so every outcome of the call is the image of some oracle.
\<close>

type_synonym rng = "nat \<Rightarrow> nat"

definition rng_tail :: "rng \<Rightarrow> rng" where
  "rng_tail r = (\<lambda>n. r (Suc n))"

text \<open>\<open>random.choice(xs)\<close>, called on non-empty lists only (every call site guards it).\<close>

definition choice :: "rng \<Rightarrow> 'a list \<Rightarrow> 'a \<times> rng" where
  "choice r xs = (xs ! (r 0 mod length xs), rng_tail r)"

text \<open>
  \<open>random.shuffle(x)\<close>: for \<open>i\<close> from \<open>len(x) - 1\<close> down to \<open>1\<close>, draw \<open>j\<close> below
  \<open>i + 1\<close> and swap \<open>x[i]\<close> with \<open>x[j]\<close>.
\<close>

fun shuffle_from :: "nat \<Rightarrow> rng \<Rightarrow> 'a list \<Rightarrow> 'a list \<times> rng" where
  "shuffle_from 0 r xs = (xs, r)"
| "shuffle_from (Suc i) r xs =
     (if Suc i < length xs
      then (let j = r 0 mod (Suc i + 1)
            in shuffle_from i (rng_tail r) (xs[Suc i := xs ! j, j := xs ! Suc i]))
      else shuffle_from i r xs)"

definition shuffle :: "rng \<Rightarrow> 'a list \<Rightarrow> 'a list \<times> rng" where
  "shuffle r xs = shuffle_from (length xs - 1) r xs"

text \<open>\<open>GameConfig.DIRECTIONS\<close> as the class body sets it.\<close>

definition DIRECTIONS :: "(int \<times> int) list" where
  "DIRECTIONS = [(0, 1), (1, 0), (0, -1), (-1, 0)]"

text \<open>
  \<open>Enemy.create_patrol_path\<close> shuffles the list object \<open>GameConfig.DIRECTIONS\<close> itself,
  so the functions that read the class attribute see some rearrangement of the four
  unit steps. They take its current value as the argument \<open>dirs\<close>.
\<close>

definition directions_ok :: "(int \<times> int) list \<Rightarrow> bool" where
  "directions_ok dirs \<longleftrightarrow> mset dirs = mset DIRECTIONS"

section \<open>Enemy patrol paths\<close>

subsection \<open>\<open>Enemy.create_patrol_path\<close> and \<open>Enemy.move\<close> (game\_objects.py)\<close>

record enemy =
  e_pos :: "cell option"
  e_path :: "cell list"
  e_move_counter :: int
  e_initial_pos :: "cell option"

text \<open>
  The inner \<open>for dx, dy in directions\<close> with its \<open>break\<close>: the first neighbour that
  passes the test and is not in \<open>visited\<close>, if any.
\<close>

fun patrol_next ::
  "maze \<Rightarrow> int \<Rightarrow> int \<Rightarrow> cell \<Rightarrow> cell set \<Rightarrow> (int \<times> int) list \<Rightarrow> py_error + cell option" where
  "patrol_next maze width height c visited [] = Inr None"
| "patrol_next maze width height c visited (d # ds) =
     (let nx = fst c + fst d; ny = snd c + snd d
      in case cell_open maze width height nx ny of
           Inl e \<Rightarrow> Inl e
         | Inr ok \<Rightarrow>
             if ok \<and> (nx, ny) \<notin> visited then Inr (Some (nx, ny))
             else patrol_next maze width height c visited ds)"

text \<open>The outer \<open>for _ in range(10)\<close>, which stops at the first step that finds nothing.\<close>

fun patrol_extend ::
  "nat \<Rightarrow> maze \<Rightarrow> int \<Rightarrow> int \<Rightarrow> (int \<times> int) list \<Rightarrow> rng \<Rightarrow> cell list \<Rightarrow> cell \<Rightarrow> cell set
     \<Rightarrow> py_error + ((int \<times> int) list \<times> rng \<times> cell list)" where
  "patrol_extend 0 maze width height dirs r path current visited = Inr (dirs, r, path)"
| "patrol_extend (Suc n) maze width height dirs r path current visited =
     (case shuffle r dirs of
        (dirs', r') \<Rightarrow>
          (case patrol_next maze width height current visited dirs' of
             Inl e \<Rightarrow> Inl e
           | Inr None \<Rightarrow> Inr (dirs', r', path)
           | Inr (Some c) \<Rightarrow>
               patrol_extend n maze width height dirs' r' (path @ [c]) c (insert c visited)))"

text \<open>
  \<open>create_patrol_path\<close> returns the enemy together with the new value of
  \<open>GameConfig.DIRECTIONS\<close> and the rest of the random source. The fallback for a path of
  fewer than three cells takes the first open neighbour of the spawn cell, without
  looking at \<open>visited\<close>.
\<close>

definition create_patrol_path ::
  "enemy \<Rightarrow> (int \<times> int) list \<Rightarrow> rng \<Rightarrow> maze \<Rightarrow> int \<Rightarrow> int
     \<Rightarrow> py_error + (enemy \<times> (int \<times> int) list \<times> rng)" where
  "create_patrol_path en dirs r maze width height =
     (case e_pos en of
        None \<Rightarrow> Inr (en, dirs, r)
      | Some p \<Rightarrow>
          (case patrol_extend 10 maze width height dirs r [p] p {p} of
             Inl e \<Rightarrow> Inl e
           | Inr (dirs', r', path) \<Rightarrow>
               if length path < 3
               then (case patrol_next maze width height p {} dirs' of
                       Inl e \<Rightarrow> Inl e
                     | Inr None \<Rightarrow> Inr (en\<lparr>e_path := [p]\<rparr>, dirs', r')
                     | Inr (Some c) \<Rightarrow> Inr (en\<lparr>e_path := [p, c]\<rparr>, dirs', r'))
               else Inr (en\<lparr>e_path := path\<rparr>, dirs', r')))"

text \<open>\<open>a % b\<close> on integers.\<close>

definition py_mod :: "int \<Rightarrow> int \<Rightarrow> py_error + int" where
  "py_mod a b = (if b = 0 then Inl ZeroDivisionError else Inr (a mod b))"

text \<open>\<open>self.path.index(self.pos)\<close>, \<open>None\<close> standing for the \<open>ValueError\<close> that \<open>move\<close> catches.\<close>

fun list_index :: "'a list \<Rightarrow> 'a \<Rightarrow> nat option" where
  "list_index [] v = None"
| "list_index (x # xs) v = (if x = v then Some 0 else map_option Suc (list_index xs v))"

text \<open>
  \<open>Enemy.move\<close> with \<open>GameConfig.ENEMY_MOVE_INTERVAL = 5\<close>. A path of fewer than two
  cells leaves the enemy where it is.
\<close>

definition ENEMY_MOVE_INTERVAL :: int where
  "ENEMY_MOVE_INTERVAL = 5"

definition enemy_move :: "enemy \<Rightarrow> py_error + enemy" where
  "enemy_move en =
     (case e_pos en of
        None \<Rightarrow> Inr en
      | Some p \<Rightarrow>
          if e_path en = [] \<or> length (e_path en) < 2 then Inr en
          else (let en1 = en\<lparr>e_move_counter := e_move_counter en + 1\<rparr>
                in if e_move_counter en1 \<ge> ENEMY_MOVE_INTERVAL
                   then (let current_index = (case list_index (e_path en1) p of
                                               Some i \<Rightarrow> int i | None \<Rightarrow> 0)
                         in case py_mod (current_index + 1) (int (length (e_path en1))) of
                              Inl e \<Rightarrow> Inl e
                            | Inr next_index \<Rightarrow>
                                (case py_index (e_path en1) next_index of
                                   Inl e \<Rightarrow> Inl e
                                 | Inr q \<Rightarrow> Inr (en1\<lparr>e_pos := Some q, e_move_counter := 0\<rparr>)))
                   else Inr en1))"

subsection \<open>\<open>create_enemy_path\<close> and \<open>move_enemy\<close> (main3.py)\<close>

text \<open>
  The single-file game keeps \<open>enemy_pos\<close> and \<open>enemy_path\<close> on the game object. Its
  patrol builder tries six extensions in the fixed order right, down, left, up, tests
  membership in the path built so far, and has no fallback.
\<close>

fun enemy_extend :: "nat \<Rightarrow> maze \<Rightarrow> int \<Rightarrow> int \<Rightarrow> cell list \<Rightarrow> cell \<Rightarrow> py_error + cell list" where
  "enemy_extend 0 maze width height path current = Inr path"
| "enemy_extend (Suc n) maze width height path current =
     (case patrol_next maze width height current (set path) [(1, 0), (0, 1), (-1, 0), (0, -1)] of
        Inl e \<Rightarrow> Inl e
      | Inr None \<Rightarrow> enemy_extend n maze width height path current
      | Inr (Some c) \<Rightarrow> enemy_extend n maze width height (path @ [c]) c)"

text \<open>Returns the new \<open>enemy_path\<close>; without a spawn cell the old one stays.\<close>


definition create_enemy_path ::
  "cell option \<Rightarrow> cell list \<Rightarrow> maze \<Rightarrow> int \<Rightarrow> int \<Rightarrow> py_error + cell list" where
  "create_enemy_path enemy_pos enemy_path maze width height =
     (case enemy_pos of
        None \<Rightarrow> Inr enemy_path
      | Some p \<Rightarrow> enemy_extend 6 maze width height [p] p)"

text \<open>
  \<open>move_enemy\<close> on the fields \<open>enemy_pos\<close>, \<open>enemy_path\<close> and \<open>enemy_move_counter\<close>.
\<close>

definition move_enemy ::
  "cell option \<times> cell list \<times> int \<Rightarrow> py_error + (cell option \<times> cell list \<times> int)" where
  "move_enemy st =
     (case st of
        (enemy_pos, enemy_path, enemy_move_counter) \<Rightarrow>
          (case enemy_pos of
             None \<Rightarrow> Inr st
           | Some p \<Rightarrow>
               if enemy_path = [] then Inr st
               else if enemy_move_counter + 1 \<ge> 5
               then (let current_index = (case list_index enemy_path p of
                                           Some i \<Rightarrow> int i | None \<Rightarrow> 0)
                     in case py_mod (current_index + 1) (int (length enemy_path)) of
                          Inl e \<Rightarrow> Inl e
                        | Inr next_index \<Rightarrow>
                            (case py_index enemy_path next_index of
                               Inl e \<Rightarrow> Inl e
                             | Inr q \<Rightarrow> Inr (Some q, enemy_path, 0)))
               else Inr (enemy_pos, enemy_path, enemy_move_counter + 1)))"

section \<open>Maze generation (maze\_generator.py)\<close>

text \<open>\<open>[[1 for _ in range(width)] for _ in range(height)]\<close>.\<close>

definition initial_maze :: "int \<Rightarrow> int \<Rightarrow> maze" where
  "initial_maze width height = replicate (nat height) (replicate (nat width) 1)"

text \<open>The local list \<open>directions\<close> of \<open>generate_maze\<close>.\<close>

definition lattice_steps :: "(int \<times> int) list" where
  "lattice_steps = [(0, 2), (2, 0), (0, -2), (-2, 0)]"

text \<open>
  The \<open>for dx, dy in directions\<close> loop that collects \<open>neighbors\<close>: the cells two steps
  away, strictly inside the border, that are still wall, each with the offset
  \<open>(dx // 2, dy // 2)\<close> of the wall between.
\<close>

fun carve_neighbors ::
  "maze \<Rightarrow> int \<Rightarrow> int \<Rightarrow> cell \<Rightarrow> (int \<times> int) list \<Rightarrow> py_error + (int \<times> int \<times> int \<times> int) list" where
  "carve_neighbors maze width height c [] = Inr []"
| "carve_neighbors maze width height c (d # ds) =
     (let nx = fst c + fst d; ny = snd c + snd d
      in if 0 < nx \<and> nx < width - 1 \<and> 0 < ny \<and> ny < height - 1
         then (case maze_get maze nx ny of
                 Inl e \<Rightarrow> Inl e
               | Inr v \<Rightarrow>
                   (case carve_neighbors maze width height c ds of
                      Inl e \<Rightarrow> Inl e
                    | Inr ns \<Rightarrow>
                        Inr (if v = 1 then (nx, ny, fst d div 2, snd d div 2) # ns else ns)))
         else carve_neighbors maze width height c ds)"

text \<open>The positions \<open>(row, column)\<close> that hold a wall; carving terminates because they run out.\<close>

definition walls :: "maze \<Rightarrow> (nat \<times> nat) set" where
  "walls maze = {(i, j). i < length maze \<and> j < length (maze ! i) \<and> maze ! i ! j = 1}"

lemma finite_walls: "finite (walls maze)"
proof -
  have "walls maze \<subseteq> (SIGMA i:{..<length maze}. {..<length (maze ! i)})"
    by (auto simp: walls_def)
  then show ?thesis by (rule finite_subset) simp
qed

lemma py_index_Inr:
  "0 \<le> i \<Longrightarrow> py_index xs i = Inr v \<Longrightarrow> nat i < length xs \<and> v = xs ! nat i"
  by (auto simp: py_index_def Let_def split: if_splits)

lemma py_assign_Inr:
  "0 \<le> i \<Longrightarrow> py_assign xs i v = Inr ys \<Longrightarrow> nat i < length xs \<and> ys = xs[nat i := v]"
  by (auto simp: py_assign_def Let_def split: if_splits)

lemma maze_get_Inr:
  assumes "0 \<le> x" and "0 \<le> y" and "maze_get maze x y = Inr v"
  shows "nat y < length maze \<and> nat x < length (maze ! nat y) \<and> v = maze ! nat y ! nat x"
proof -
  from assms(3) obtain row where r: "py_index maze y = Inr row" and v: "py_index row x = Inr v"
    by (auto simp: maze_get_def split: sum.splits)
  from py_index_Inr[OF assms(2) r] py_index_Inr[OF assms(1) v] show ?thesis by simp
qed

lemma maze_set_Inr:
  assumes "0 \<le> x" and "0 \<le> y" and "maze_set maze x y v = Inr maze'"
  shows "nat y < length maze \<and> nat x < length (maze ! nat y)
       \<and> maze' = maze[nat y := (maze ! nat y)[nat x := v]]"
proof -
  from assms(3) obtain row row' where r: "py_index maze y = Inr row"
    and a: "py_assign row x v = Inr row'" and m: "py_assign maze y row' = Inr maze'"
    by (auto simp: maze_set_def split: sum.splits)
  from py_index_Inr[OF assms(2) r] py_assign_Inr[OF assms(1) a] py_assign_Inr[OF assms(2) m]
  show ?thesis by simp
qed

lemma walls_carved:
  assumes "i < length maze" and "j < length (maze ! i)"
  shows "walls (maze[i := (maze ! i)[j := 0]]) = walls maze - {(i, j)}"
  using assms by (auto simp: walls_def nth_list_update split: if_splits)

lemma carve_neighbors_elem:
  assumes "carve_neighbors maze width height c ds = Inr ns"
    and "(nx, ny, wall_x, wall_y) \<in> set ns"
  shows "\<exists>d\<in>set ds. nx = fst c + fst d \<and> ny = snd c + snd d
            \<and> wall_x = fst d div 2 \<and> wall_y = snd d div 2
            \<and> 0 < nx \<and> nx < width - 1 \<and> 0 < ny \<and> ny < height - 1
            \<and> maze_get maze nx ny = Inr 1"
  using assms
proof (induction ds arbitrary: ns)
  case Nil
  then show ?case by simp
next
  case (Cons d ds)
  show ?case
  proof (cases "0 < fst c + fst d \<and> fst c + fst d < width - 1
                \<and> 0 < snd c + snd d \<and> snd c + snd d < height - 1")
    case False
    then have "carve_neighbors maze width height c ds = Inr ns"
      using Cons.prems(1) by (auto simp: Let_def)
    from Cons.IH[OF this Cons.prems(2)] show ?thesis by auto
  next
    case True
    with Cons.prems(1) obtain v ns' where v: "maze_get maze (fst c + fst d) (snd c + snd d) = Inr v"
      and ns': "carve_neighbors maze width height c ds = Inr ns'"
      and ns: "ns = (if v = 1 then (fst c + fst d, snd c + snd d, fst d div 2, snd d div 2) # ns'
                     else ns')"
      by (auto simp: Let_def split: sum.splits)
    show ?thesis
    proof (cases "(nx, ny, wall_x, wall_y) \<in> set ns'")
      case True
      from Cons.IH[OF ns' this] show ?thesis by auto
    next
      case False
      with Cons.prems(2) ns have "v = 1"
        and "(nx, ny, wall_x, wall_y) = (fst c + fst d, snd c + snd d, fst d div 2, snd d div 2)"
        by (auto split: if_splits)
      then show ?thesis using True v by auto
    qed
  qed
qed

lemma choice_in_set: "xs \<noteq> [] \<Longrightarrow> fst (choice r xs) \<in> set xs"
  by (simp add: choice_def)

lemma carve_step_decreases:
  assumes ns: "carve_neighbors maze width height (cx, cy) lattice_steps = Inr ns"
    and el: "(nx, ny, wall_x, wall_y) \<in> set ns"
    and s1: "maze_set maze (cx + wall_x) (cy + wall_y) 0 = Inr maze1"
    and s2: "maze_set maze1 nx ny 0 = Inr maze2"
  shows "card (walls maze2) < card (walls maze)"
proof -
  from carve_neighbors_elem[OF ns el] obtain d where d: "d \<in> set lattice_steps"
    and n: "nx = cx + fst d" "ny = cy + snd d" "wall_x = fst d div 2" "wall_y = snd d div 2"
    and pos: "0 < nx" "0 < ny" and g: "maze_get maze nx ny = Inr 1"
    by auto
  from d n pos have w: "0 \<le> cx + wall_x" "0 \<le> cy + wall_y"
    and ne: "(nat (cy + wall_y), nat (cx + wall_x)) \<noteq> (nat ny, nat nx)"
    by (auto simp: lattice_steps_def)
  from maze_get_Inr[OF _ _ g] pos have inw: "(nat ny, nat nx) \<in> walls maze"
    by (simp add: walls_def)
  from maze_set_Inr[OF w s1] have m1: "walls maze1 = walls maze - {(nat (cy + wall_y), nat (cx + wall_x))}"
    using walls_carved by simp
  from maze_set_Inr[OF _ _ s2] pos have m2: "walls maze2 = walls maze1 - {(nat ny, nat nx)}"
    using walls_carved by simp
  have "walls maze2 \<subset> walls maze" using m1 m2 inw ne by auto
  then show ?thesis by (rule psubset_card_mono[OF finite_walls])
qed

text \<open>
  The \<open>while stack\<close> loop. The stack is a list whose head is its top \<open>stack[-1]\<close>.
\<close>

function carve_loop :: "int \<Rightarrow> int \<Rightarrow> maze \<Rightarrow> cell list \<Rightarrow> rng \<Rightarrow> py_error + (maze \<times> rng)" where
  "carve_loop width height maze stack r =
     (case stack of
        [] \<Rightarrow> Inr (maze, r)
      | (current_x, current_y) # rest \<Rightarrow>
          (case carve_neighbors maze width height (current_x, current_y) lattice_steps of
             Inl e \<Rightarrow> Inl e
           | Inr neighbors \<Rightarrow>
               if neighbors \<noteq> []
               then (case choice r neighbors of
                       ((nx, ny, wall_x, wall_y), r') \<Rightarrow>
                         (case maze_set maze (current_x + wall_x) (current_y + wall_y) 0 of
                            Inl e \<Rightarrow> Inl e
                          | Inr maze1 \<Rightarrow>
                              (case maze_set maze1 nx ny 0 of
                                 Inl e \<Rightarrow> Inl e
                               | Inr maze2 \<Rightarrow>
                                   carve_loop width height maze2 ((nx, ny) # stack) r')))
               else carve_loop width height maze rest r))"
  by pat_completeness auto
termination
proof (relation "measures
          [\<lambda>(width, height, maze, stack, r). card (walls maze),
           \<lambda>(width, height, maze, stack, r). length stack]",
       goal_cases)
  case 1
  then show ?case by auto
next
  case (2 width height maze stack r entry rest current_x current_y neighbors
          chosen r' nx rest1 ny rest2 wall_x wall_y maze1 maze2)
  then have ns: "carve_neighbors maze width height (current_x, current_y) lattice_steps = Inr neighbors"
    and ne: "neighbors \<noteq> []"
    and ch: "choice r neighbors = ((nx, ny, wall_x, wall_y), r')"
    and s1: "maze_set maze (current_x + wall_x) (current_y + wall_y) 0 = Inr maze1"
    and s2: "maze_set maze1 nx ny 0 = Inr maze2"
    by simp_all
  from choice_in_set[OF ne, of r] ch have "(nx, ny, wall_x, wall_y) \<in> set neighbors" by simp
  from carve_step_decreases[OF ns this s1 s2] show ?case by simp
next
  case 3
  then show ?case by auto
qed

declare carve_loop.simps [simp del]

text \<open>
  \<open>random.randrange(1, stop, 2)\<close>: an odd number below \<open>stop\<close>, \<open>ValueError\<close> when there
  is none.
\<close>

definition randrange_odd :: "rng \<Rightarrow> int \<Rightarrow> py_error + (int \<times> rng)" where
  "randrange_odd r stop =
     (let n = stop div 2
      in if n \<le> 0 then Inl ValueError
         else Inr (1 + 2 * int (r 0 mod nat n), rng_tail r))"

text \<open>\<open>random.random() < 0.3\<close>: the next draw decides it.\<close>

definition random_below_03 :: "rng \<Rightarrow> bool \<times> rng" where
  "random_below_03 r = (r 0 mod 10 < 3, rng_tail r)"

text \<open>
  The inner loop of the loop injection, \<open>for dx, dy in GameConfig.DIRECTIONS\<close>: the
  random number is drawn only for a neighbour inside the border that is a wall, and the
  first such neighbour whose draw succeeds is carved.
\<close>

fun break_wall ::
  "maze \<Rightarrow> int \<Rightarrow> int \<Rightarrow> cell \<Rightarrow> (int \<times> int) list \<Rightarrow> rng \<Rightarrow> py_error + (maze \<times> rng)" where
  "break_wall maze width height c [] r = Inr (maze, r)"
| "break_wall maze width height c (d # ds) r =
     (let nx = fst c + fst d; ny = snd c + snd d
      in if 0 < nx \<and> nx < width - 1 \<and> 0 < ny \<and> ny < height - 1
         then (case maze_get maze nx ny of
                 Inl e \<Rightarrow> Inl e
               | Inr v \<Rightarrow>
                   if v = 1
                   then (case random_below_03 r of
                           (hit, r') \<Rightarrow>
                             if hit
                             then (case maze_set maze nx ny 0 of
                                     Inl e \<Rightarrow> Inl e
                                   | Inr maze' \<Rightarrow> Inr (maze', r'))
                             else break_wall maze width height c ds r')
                   else break_wall maze width height c ds r)
         else break_wall maze width height c ds r)"

text \<open>The loop injection \<open>for _ in range(self.width // 2)\<close>, by the rounds still to run.\<close>

fun add_loops ::
  "nat \<Rightarrow> int \<Rightarrow> int \<Rightarrow> (int \<times> int) list \<Rightarrow> maze \<Rightarrow> rng \<Rightarrow> py_error + (maze \<times> rng)" where
  "add_loops 0 width height dirs maze r = Inr (maze, r)"
| "add_loops (Suc n) width height dirs maze r =
     (case randrange_odd r (width - 1) of
        Inl e \<Rightarrow> Inl e
      | Inr (x, r1) \<Rightarrow>
          (case randrange_odd r1 (height - 1) of
             Inl e \<Rightarrow> Inl e
           | Inr (y, r2) \<Rightarrow>
               (case maze_get maze x y of
                  Inl e \<Rightarrow> Inl e
                | Inr v \<Rightarrow>
                    if v = 0
                    then (case break_wall maze width height (x, y) dirs r2 of
                            Inl e \<Rightarrow> Inl e
                          | Inr (maze', r3) \<Rightarrow> add_loops n width height dirs maze' r3)
                    else add_loops n width height dirs maze r2)))"

text \<open>
  The three phases of \<open>generate_maze\<close>: the spanning tree, the loop injection, and the
  two cells forced clear at the end.
\<close>

definition spanning_tree :: "int \<Rightarrow> int \<Rightarrow> rng \<Rightarrow> py_error + (maze \<times> rng)" where
  "spanning_tree width height r =
     (case maze_set (initial_maze width height) 1 1 0 of
        Inl e \<Rightarrow> Inl e
      | Inr maze \<Rightarrow> carve_loop width height maze [(1, 1)] r)"

definition clear_start_end :: "int \<Rightarrow> int \<Rightarrow> maze \<Rightarrow> py_error + maze" where
  "clear_start_end width height maze =
     (case maze_set maze 1 1 0 of
        Inl e \<Rightarrow> Inl e
      | Inr maze1 \<Rightarrow> maze_set maze1 (width - 2) (height - 2) 0)"

definition generate_maze ::
  "int \<Rightarrow> int \<Rightarrow> (int \<times> int) list \<Rightarrow> rng \<Rightarrow> py_error + (maze \<times> rng)" where
  "generate_maze width height dirs r =
     (case spanning_tree width height r of
        Inl e \<Rightarrow> Inl e
      | Inr (maze, r1) \<Rightarrow>
          (case add_loops (nat (width div 2)) width height dirs maze r1 of
             Inl e \<Rightarrow> Inl e
           | Inr (maze2, r2) \<Rightarrow>
               (case clear_start_end width height maze2 of
                  Inl e \<Rightarrow> Inl e
                | Inr maze3 \<Rightarrow> Inr (maze3, r2))))"

section \<open>Pathfinding (path\_finding.py)\<close>

text \<open>
  A frontier entry is the pair \<open>(position, path)\<close> of the source. The parameter \<open>goal\<close>
  is the source's \<open>end\<close>. \<open>open_neighbours\<close> is the body shared by the \<open>for dx, dy\<close>
  loops of BFS, UCS, DFS and the bidirectional search: the neighbours that pass the
  bounds and wall test, in direction order. None of these loops leaves early, so a
  lookup that raises in any direction ends the search with that exception.
\<close>

type_synonym frontier = "(cell \<times> cell list) list"

fun open_neighbours ::
  "(int \<times> int) list \<Rightarrow> maze \<Rightarrow> int \<Rightarrow> int \<Rightarrow> cell \<Rightarrow> py_error + cell list" where
  "open_neighbours [] maze width height c = Inr []"
| "open_neighbours (d # ds) maze width height c =
     (let nx = fst c + fst d; ny = snd c + snd d
      in case cell_open maze width height nx ny of
           Inl e \<Rightarrow> Inl e
         | Inr ok \<Rightarrow>
             (case open_neighbours ds maze width height c of
                Inl e \<Rightarrow> Inl e
              | Inr ns \<Rightarrow> Inr (if ok then (nx, ny) # ns else ns)))"

text \<open>The cells inside the bounds; every search terminates because this set is finite.\<close>

definition grid_cells :: "int \<Rightarrow> int \<Rightarrow> cell set" where
  "grid_cells width height = {0..<width} \<times> {0..<height}"

lemma finite_grid_cells: "finite (grid_cells width height)"
  by (simp add: grid_cells_def)

lemma open_neighbours_in_grid:
  "open_neighbours dirs maze width height c = Inr ns \<Longrightarrow> set ns \<subseteq> grid_cells width height"
proof (induction dirs arbitrary: ns)
  case Nil
  then show ?case by simp
next
  case (Cons d ds)
  then show ?case
    by (auto simp: Let_def cell_open_def grid_cells_def split: sum.splits if_splits)
qed

subsection \<open>\<open>_bfs\<close>\<close>

text \<open>The \<open>for\<close> loop of BFS on the open neighbours: mark and enqueue the unvisited ones.\<close>

fun bfs_expand :: "cell list \<Rightarrow> cell list \<Rightarrow> cell set \<Rightarrow> frontier \<Rightarrow> cell set \<times> frontier" where
  "bfs_expand [] path visited queue = (visited, queue)"
| "bfs_expand (n # ns) path visited queue =
     (if n \<notin> visited
      then bfs_expand ns path (insert n visited) (queue @ [(n, path @ [n])])
      else bfs_expand ns path visited queue)"

lemma bfs_expand_visited: "fst (bfs_expand ns path visited queue) = visited \<union> set ns"
  by (induction ns arbitrary: visited queue) auto

lemma bfs_expand_same:
  "set ns \<subseteq> visited \<Longrightarrow> bfs_expand ns path visited queue = (visited, queue)"
  by (induction ns arbitrary: visited queue) auto

lemma card_grid_less:
  assumes "set ns \<subseteq> grid_cells width height" and "\<not> set ns \<subseteq> visited"
  shows "card (grid_cells width height - (visited \<union> set ns)) < card (grid_cells width height - visited)"
proof (rule psubset_card_mono)
  show "finite (grid_cells width height - visited)" by (simp add: finite_grid_cells)
  show "grid_cells width height - (visited \<union> set ns) \<subset> grid_cells width height - visited"
    using assms by blast
qed

lemma bfs_step_decreases:
  assumes "open_neighbours dirs maze width height c = Inr ns"
    and "bfs_expand ns path visited rest = (visited', queue')"
  shows "card (grid_cells width height - visited') < card (grid_cells width height - visited)
       \<or> (visited' = visited \<and> queue' = rest)"
proof -
  have ns: "set ns \<subseteq> grid_cells width height"
    using assms(1) by (rule open_neighbours_in_grid)
  have v: "visited' = visited \<union> set ns"
    using assms(2) bfs_expand_visited[of ns path visited rest] by simp
  show ?thesis
  proof (cases "set ns \<subseteq> visited")
    case True
    then show ?thesis using assms(2) bfs_expand_same[of ns visited path rest] by simp
  next
    case False
    then show ?thesis using card_grid_less[OF ns False] v by simp
  qed
qed

function bfs_loop ::
  "(int \<times> int) list \<Rightarrow> maze \<Rightarrow> int \<Rightarrow> int \<Rightarrow> cell \<Rightarrow> frontier \<Rightarrow> cell set \<Rightarrow> nat
     \<Rightarrow> py_error + (cell list option \<times> nat)" where
  "bfs_loop dirs maze width height goal queue visited nodes_explored =
     (case queue of
        [] \<Rightarrow> Inr (None, nodes_explored)
      | (c, path) # rest \<Rightarrow>
          if c = goal then Inr (Some path, nodes_explored + 1)
          else (case open_neighbours dirs maze width height c of
                  Inl e \<Rightarrow> Inl e
                | Inr ns \<Rightarrow>
                    (case bfs_expand ns path visited rest of
                       (visited', queue') \<Rightarrow>
                         bfs_loop dirs maze width height goal queue' visited'
                           (nodes_explored + 1))))"
  by pat_completeness auto
termination
proof (relation "measures
          [\<lambda>(dirs, maze, width, height, goal, queue, visited, n).
              card (grid_cells width height - visited),
           \<lambda>(dirs, maze, width, height, goal, queue, visited, n). length queue]",
       goal_cases)
  case 1
  then show ?case by auto
next
  case (2 dirs maze width height goal queue visited nodes_explored entry rest c path ns visited' queue')
  then have "bfs_expand ns path visited rest = (visited', queue')" by simp
  from bfs_step_decreases[OF 2(4) this] show ?case using 2(1) by auto
qed

declare bfs_loop.simps [simp del]

text \<open>\<open>_bfs(start, end, maze, width, height)\<close>.\<close>

definition bfs ::
  "(int \<times> int) list \<Rightarrow> cell \<Rightarrow> cell \<Rightarrow> maze \<Rightarrow> int \<Rightarrow> int \<Rightarrow> py_error + (cell list option \<times> nat)" where
  "bfs dirs start goal maze width height =
     bfs_loop dirs maze width height goal [(start, [start])] {start} 0"

subsection \<open>\<open>_ucs\<close>\<close>

text \<open>
  A heap entry is the tuple \<open>(cost, position, path)\<close>. Python compares such tuples
  lexicographically, lists included, which is the order of the product and list
  instances used here; two entries that compare equal are the same value. \<open>heapq\<close> is
  therefore modelled by a sorted list: \<open>heappush\<close> inserts in order and \<open>heappop\<close>
  takes the head.
\<close>

type_synonym heap_entry = "int \<times> cell \<times> cell list"

definition heappush :: "heap_entry list \<Rightarrow> heap_entry \<Rightarrow> heap_entry list" where
  "heappush heap item = insort item heap"

fun ucs_push ::
  "cell list \<Rightarrow> int \<Rightarrow> cell list \<Rightarrow> cell set \<Rightarrow> heap_entry list \<Rightarrow> heap_entry list" where
  "ucs_push [] cost path visited heap = heap"
| "ucs_push (n # ns) cost path visited heap =
     (if n \<notin> visited
      then ucs_push ns cost path visited (heappush heap (cost + 1, n, path @ [n]))
      else ucs_push ns cost path visited heap)"

lemma ucs_push_cells:
  "(fst \<circ> snd) ` set (ucs_push ns cost path visited heap) \<subseteq> (fst \<circ> snd) ` set heap \<union> set ns"
proof (induction ns arbitrary: heap)
  case Nil
  then show ?case by simp
next
  case (Cons n ns)
  show ?case
  proof (cases "n \<in> visited")
    case True
    then show ?thesis using Cons.IH[of heap] by auto
  next
    case False
    have "(fst \<circ> snd) ` set (heappush heap (cost + 1, n, path @ [n]))
          = insert n ((fst \<circ> snd) ` set heap)"
      by (simp add: heappush_def set_insort_key)
    then show ?thesis
      using False Cons.IH[of "heappush heap (cost + 1, n, path @ [n])"] by auto
  qed
qed

lemma ucs_step_decreases:
  assumes "open_neighbours dirs maze width height c = Inr ns"
    and "c \<notin> visited"
  shows "card ((grid_cells width height \<union> (fst \<circ> snd) ` set (ucs_push ns cost path (insert c visited) rest))
               - insert c visited)
       < card ((grid_cells width height \<union> (fst \<circ> snd) ` set ((cost, c, path) # rest)) - visited)"
proof (rule psubset_card_mono)
  show "finite ((grid_cells width height \<union> (fst \<circ> snd) ` set ((cost, c, path) # rest)) - visited)"
    by (simp add: finite_grid_cells)
  have "set ns \<subseteq> grid_cells width height"
    using assms(1) by (rule open_neighbours_in_grid)
  then show "(grid_cells width height \<union> (fst \<circ> snd) ` set (ucs_push ns cost path (insert c visited) rest))
               - insert c visited
             \<subset> (grid_cells width height \<union> (fst \<circ> snd) ` set ((cost, c, path) # rest)) - visited"
    using assms(2) ucs_push_cells[of ns cost path "insert c visited" rest] by auto
qed

function ucs_loop ::
  "(int \<times> int) list \<Rightarrow> maze \<Rightarrow> int \<Rightarrow> int \<Rightarrow> cell \<Rightarrow> heap_entry list \<Rightarrow> cell set \<Rightarrow> nat
     \<Rightarrow> py_error + (cell list option \<times> nat)" where
  "ucs_loop dirs maze width height goal heap visited nodes_explored =
     (case heap of
        [] \<Rightarrow> Inr (None, nodes_explored)
      | (cost, c, path) # rest \<Rightarrow>
          if c \<in> visited
          then ucs_loop dirs maze width height goal rest visited (nodes_explored + 1)
          else if c = goal then Inr (Some path, nodes_explored + 1)
          else (case open_neighbours dirs maze width height c of
                  Inl e \<Rightarrow> Inl e
                | Inr ns \<Rightarrow>
                    ucs_loop dirs maze width height goal
                      (ucs_push ns cost path (insert c visited) rest) (insert c visited)
                      (nodes_explored + 1)))"
  by pat_completeness auto
termination
proof (relation "measures
          [\<lambda>(dirs, maze, width, height, goal, heap, visited, n).
              card ((grid_cells width height \<union> (fst \<circ> snd) ` set heap) - visited),
           \<lambda>(dirs, maze, width, height, goal, heap, visited, n). length heap]",
       goal_cases)
  case 1
  then show ?case by auto
next
  case (2 dirs maze width height goal heap visited nodes_explored entry rest cost cp c path)
  have "(grid_cells width height \<union> (fst \<circ> snd) ` set rest) - visited
        \<subseteq> (grid_cells width height \<union> (fst \<circ> snd) ` set heap) - visited"
    using 2 by auto
  moreover have "finite ((grid_cells width height \<union> (fst \<circ> snd) ` set heap) - visited)"
    by (simp add: finite_grid_cells)
  ultimately have "card ((grid_cells width height \<union> (fst \<circ> snd) ` set rest) - visited)
      \<le> card ((grid_cells width height \<union> (fst \<circ> snd) ` set heap) - visited)"
    by (rule card_mono[rotated])
  then show ?case using 2 by auto
next
  case (3 dirs maze width height goal heap visited nodes_explored entry rest cost cp c path ns)
  then have "open_neighbours dirs maze width height c = Inr ns" and "c \<notin> visited"
    by simp_all
  from ucs_step_decreases[OF this, of cost path rest] show ?case using 3 by auto
qed

declare ucs_loop.simps [simp del]

text \<open>\<open>_ucs(start, end, maze, width, height)\<close>.\<close>

definition ucs ::
  "(int \<times> int) list \<Rightarrow> cell \<Rightarrow> cell \<Rightarrow> maze \<Rightarrow> int \<Rightarrow> int \<Rightarrow> py_error + (cell list option \<times> nat)" where
  "ucs dirs start goal maze width height =
     ucs_loop dirs maze width height goal [(0, start, [start])] {} 0"

subsection \<open>\<open>_dfs\<close>\<close>

text \<open>
  The stack is a list whose head is its top. \<open>directions\<close> is the search's own copy of
  \<open>GameConfig.DIRECTIONS\<close>, shuffled again at every expansion.
\<close>

fun dfs_push :: "cell list \<Rightarrow> cell list \<Rightarrow> cell set \<Rightarrow> frontier \<Rightarrow> frontier" where
  "dfs_push [] path visited stack = stack"
| "dfs_push (n # ns) path visited stack =
     (if n \<notin> visited
      then dfs_push ns path visited ((n, path @ [n]) # stack)
      else dfs_push ns path visited stack)"

lemma dfs_push_cells:
  "fst ` set (dfs_push ns path visited stack) \<subseteq> fst ` set stack \<union> set ns"
proof (induction ns arbitrary: stack)
  case Nil
  then show ?case by simp
next
  case (Cons n ns)
  show ?case
  proof (cases "n \<in> visited")
    case True
    then show ?thesis using Cons.IH[of stack] by auto
  next
    case False
    then show ?thesis using Cons.IH[of "(n, path @ [n]) # stack"] by auto
  qed
qed

lemma dfs_step_decreases:
  assumes "open_neighbours dirs maze width height c = Inr ns"
    and "c \<notin> visited"
  shows "card ((grid_cells width height \<union> fst ` set (dfs_push ns path (insert c visited) rest))
               - insert c visited)
       < card ((grid_cells width height \<union> fst ` set ((c, path) # rest)) - visited)"
proof (rule psubset_card_mono)
  show "finite ((grid_cells width height \<union> fst ` set ((c, path) # rest)) - visited)"
    by (simp add: finite_grid_cells)
  have "set ns \<subseteq> grid_cells width height"
    using assms(1) by (rule open_neighbours_in_grid)
  then show "(grid_cells width height \<union> fst ` set (dfs_push ns path (insert c visited) rest))
               - insert c visited
             \<subset> (grid_cells width height \<union> fst ` set ((c, path) # rest)) - visited"
    using assms(2) dfs_push_cells[of ns path "insert c visited" rest] by auto
qed

function dfs_loop ::
  "maze \<Rightarrow> int \<Rightarrow> int \<Rightarrow> cell \<Rightarrow> frontier \<Rightarrow> cell set \<Rightarrow> nat \<Rightarrow> (int \<times> int) list \<Rightarrow> rng
     \<Rightarrow> py_error + (cell list option \<times> nat \<times> rng)" where
  "dfs_loop maze width height goal stack visited nodes_explored directions r =
     (case stack of
        [] \<Rightarrow> Inr (None, nodes_explored, r)
      | (c, path) # rest \<Rightarrow>
          if c \<in> visited
          then dfs_loop maze width height goal rest visited (nodes_explored + 1) directions r
          else if c = goal then Inr (Some path, nodes_explored + 1, r)
          else (case shuffle r directions of
                  (directions', r') \<Rightarrow>
                    (case open_neighbours directions' maze width height c of
                       Inl e \<Rightarrow> Inl e
                     | Inr ns \<Rightarrow>
                         dfs_loop maze width height goal
                           (dfs_push ns path (insert c visited) rest) (insert c visited)
                           (nodes_explored + 1) directions' r')))"
  by pat_completeness auto
termination
proof (relation "measures
          [\<lambda>(maze, width, height, goal, stack, visited, n, directions, r).
              card ((grid_cells width height \<union> fst ` set stack) - visited),
           \<lambda>(maze, width, height, goal, stack, visited, n, directions, r). length stack]",
       goal_cases)
  case 1
  then show ?case by auto
next
  case (2 maze width height goal stack visited nodes_explored directions r entry rest c path)
  have "(grid_cells width height \<union> fst ` set rest) - visited
        \<subseteq> (grid_cells width height \<union> fst ` set stack) - visited"
    using 2 by auto
  moreover have "finite ((grid_cells width height \<union> fst ` set stack) - visited)"
    by (simp add: finite_grid_cells)
  ultimately have "card ((grid_cells width height \<union> fst ` set rest) - visited)
      \<le> card ((grid_cells width height \<union> fst ` set stack) - visited)"
    by (rule card_mono[rotated])
  then show ?case using 2 by auto
next
  case (3 maze width height goal stack visited nodes_explored directions r entry rest c path
          directions' r' ns)
  then have "open_neighbours directions' maze width height c = Inr ns" and "c \<notin> visited"
    by simp_all
  from dfs_step_decreases[OF this, of path rest] show ?case using 3 by auto
qed

declare dfs_loop.simps [simp del]

text \<open>\<open>_dfs(start, end, maze, width, height)\<close>; it also returns the random source it used up.\<close>

definition dfs ::
  "(int \<times> int) list \<Rightarrow> rng \<Rightarrow> cell \<Rightarrow> cell \<Rightarrow> maze \<Rightarrow> int \<Rightarrow> int
     \<Rightarrow> py_error + (cell list option \<times> nat \<times> rng)" where
  "dfs dirs r start goal maze width height =
     dfs_loop maze width height goal [(start, [start])] {} 0 dirs r"

subsection \<open>\<open>_dls_recursive\<close>, \<open>_dls\<close> and \<open>_ids\<close>\<close>

text \<open>\<open>if result:\<close> on an optional path: \<open>None\<close> and the empty list are false.\<close>

definition truthy :: "cell list option \<Rightarrow> bool" where
  "truthy result = (case result of None \<Rightarrow> False | Some p \<Rightarrow> p \<noteq> [])"

text \<open>
  \<open>dls_recursive\<close> is the body of \<open>_dls_recursive\<close> up to its \<open>for\<close> loop and
  \<open>dls_children\<close> is the loop over the directions still to try, with the running
  \<open>nodes_explored\<close>. Each recursive call gets \<open>visited.copy()\<close>, so \<open>visited\<close> is passed
  by value and a sibling never sees what another branch added. The loop leaves at the
  first child that returns a path, so each direction does its own lookup.
\<close>

function dls_recursive ::
    "(int \<times> int) list \<Rightarrow> cell \<Rightarrow> cell \<Rightarrow> cell list \<Rightarrow> cell set \<Rightarrow> int \<Rightarrow> maze \<Rightarrow> int \<Rightarrow> int
       \<Rightarrow> py_error + (cell list option \<times> nat)"
  and dls_children ::
    "(int \<times> int) list \<Rightarrow> (int \<times> int) list \<Rightarrow> cell \<Rightarrow> cell \<Rightarrow> cell list \<Rightarrow> cell set \<Rightarrow> int
       \<Rightarrow> maze \<Rightarrow> int \<Rightarrow> int \<Rightarrow> nat \<Rightarrow> py_error + (cell list option \<times> nat)" where
  "dls_recursive dirs c goal path visited remaining_depth maze width height =
     (if remaining_depth < 0 then Inr (None, 0)
      else if c = goal then Inr (Some path, 1)
      else dls_children dirs dirs c goal path (insert c visited) remaining_depth
             maze width height 1)"
| "dls_children dirs [] c goal path visited remaining_depth maze width height nodes_explored =
     Inr (None, nodes_explored)"
| "dls_children dirs (d # ds) c goal path visited remaining_depth maze width height
       nodes_explored =
     (let nx = fst c + fst d; ny = snd c + snd d
      in case cell_open maze width height nx ny of
           Inl e \<Rightarrow> Inl e
         | Inr ok \<Rightarrow>
             if ok \<and> (nx, ny) \<notin> visited
             then (case dls_recursive dirs (nx, ny) goal (path @ [(nx, ny)]) visited
                          (remaining_depth - 1) maze width height of
                     Inl e \<Rightarrow> Inl e
                   | Inr (result, explored) \<Rightarrow>
                       if truthy result then Inr (result, nodes_explored + explored)
                       else dls_children dirs ds c goal path visited remaining_depth
                              maze width height (nodes_explored + explored))
             else dls_children dirs ds c goal path visited remaining_depth
                    maze width height nodes_explored)"
  by pat_completeness auto
termination
proof (relation "measure (\<lambda>a. case a of
          Inl (dirs, c, goal, path, visited, d, maze, width, height) \<Rightarrow>
            (if d < 0 then 0 else (nat d + 1) * (length dirs + 2))
        | Inr (dirs, ds, c, goal, path, visited, d, maze, width, height, n) \<Rightarrow>
            nat d * (length dirs + 2) + length ds + 1)",
       goal_cases)
  case 1
  then show ?case by simp
next
  case 2
  then show ?case by simp
next
  case (3 dirs d ds c goal path visited remaining_depth maze width height nodes_explored)
  have "remaining_depth \<ge> 1 \<Longrightarrow> nat (remaining_depth - 1) + 1 = nat remaining_depth" by simp
  then show ?case by (cases "remaining_depth \<ge> 1") (auto simp: not_le)
next
  case 4
  then show ?case by simp
next
  case 5
  then show ?case by simp
qed

text \<open>\<open>_dls(start, end, maze, width, height, depth_limit=50)\<close>.\<close>

definition dls ::
  "(int \<times> int) list \<Rightarrow> cell \<Rightarrow> cell \<Rightarrow> maze \<Rightarrow> int \<Rightarrow> int \<Rightarrow> int
     \<Rightarrow> py_error + (cell list option \<times> nat)" where
  "dls dirs start goal maze width height depth_limit =
     dls_recursive dirs start goal [start] {} depth_limit maze width height"

text \<open>The loop \<open>for depth in range(max_depth)\<close> of \<open>_ids\<close> over the depths still to run.\<close>

fun ids_loop ::
  "(int \<times> int) list \<Rightarrow> cell \<Rightarrow> cell \<Rightarrow> maze \<Rightarrow> int \<Rightarrow> int \<Rightarrow> int list \<Rightarrow> nat
     \<Rightarrow> py_error + (cell list option \<times> nat)" where
  "ids_loop dirs start goal maze width height [] total_nodes_explored =
     Inr (None, total_nodes_explored)"
| "ids_loop dirs start goal maze width height (depth # depths) total_nodes_explored =
     (case dls dirs start goal maze width height depth of
        Inl e \<Rightarrow> Inl e
      | Inr (result, nodes_explored) \<Rightarrow>
          if truthy result then Inr (result, total_nodes_explored + nodes_explored)
          else ids_loop dirs start goal maze width height depths
                 (total_nodes_explored + nodes_explored))"

text \<open>\<open>_ids(start, end, maze, width, height, max_depth=100)\<close>.\<close>

definition ids ::
  "(int \<times> int) list \<Rightarrow> cell \<Rightarrow> cell \<Rightarrow> maze \<Rightarrow> int \<Rightarrow> int \<Rightarrow> int
     \<Rightarrow> py_error + (cell list option \<times> nat)" where
  "ids dirs start goal maze width height max_depth =
     ids_loop dirs start goal maze width height [0..max_depth - 1] 0"

subsection \<open>\<open>_bidirectional\<close>\<close>

text \<open>
  \<open>forward_visited\<close> and \<open>backward_visited\<close> are dictionaries from a cell to the path
  that reached it. One round of the \<open>while\<close> loop is a forward step followed by a
  backward step; either may return the joined path.
\<close>

type_synonym visited_map = "cell \<rightharpoonup> cell list"

fun bidi_expand ::
  "cell list \<Rightarrow> cell list \<Rightarrow> visited_map \<Rightarrow> frontier \<Rightarrow> visited_map \<times> frontier" where
  "bidi_expand [] path vis queue = (vis, queue)"
| "bidi_expand (n # ns) path vis queue =
     (if vis n = None
      then bidi_expand ns path (vis(n \<mapsto> path @ [n])) (queue @ [(n, path @ [n])])
      else bidi_expand ns path vis queue)"

datatype step_result =
    Found "cell list" nat
  | Next_state frontier visited_map nat

text \<open>The slice \<open>p[-2::-1]\<close>: \<open>p\<close> without its last element, reversed.\<close>

definition slice_rev :: "cell list \<Rightarrow> cell list" where
  "slice_rev p = rev (butlast p)"

definition forward_step ::
  "(int \<times> int) list \<Rightarrow> maze \<Rightarrow> int \<Rightarrow> int \<Rightarrow> frontier \<Rightarrow> visited_map \<Rightarrow> visited_map \<Rightarrow> nat
     \<Rightarrow> py_error + step_result" where
  "forward_step dirs maze width height forward_queue forward_visited backward_visited
       nodes_explored =
     (case forward_queue of
        [] \<Rightarrow> Inr (Next_state forward_queue forward_visited nodes_explored)
      | (c, path) # rest \<Rightarrow>
          (case backward_visited c of
             Some backward_path \<Rightarrow>
               Inr (Found (path @ slice_rev backward_path) (nodes_explored + 1))
           | None \<Rightarrow>
               (case open_neighbours dirs maze width height c of
                  Inl e \<Rightarrow> Inl e
                | Inr ns \<Rightarrow>
                    (case bidi_expand ns path forward_visited rest of
                       (forward_visited', forward_queue') \<Rightarrow>
                         Inr (Next_state forward_queue' forward_visited'
                                (nodes_explored + 1))))))"

definition backward_step ::
  "(int \<times> int) list \<Rightarrow> maze \<Rightarrow> int \<Rightarrow> int \<Rightarrow> frontier \<Rightarrow> visited_map \<Rightarrow> visited_map \<Rightarrow> nat
     \<Rightarrow> py_error + step_result" where
  "backward_step dirs maze width height backward_queue backward_visited forward_visited
       nodes_explored =
     (case backward_queue of
        [] \<Rightarrow> Inr (Next_state backward_queue backward_visited nodes_explored)
      | (c, path) # rest \<Rightarrow>
          (case forward_visited c of
             Some forward_path \<Rightarrow>
               Inr (Found (forward_path @ slice_rev path) (nodes_explored + 1))
           | None \<Rightarrow>
               (case open_neighbours dirs maze width height c of
                  Inl e \<Rightarrow> Inl e
                | Inr ns \<Rightarrow>
                    (case bidi_expand ns path backward_visited rest of
                       (backward_visited', backward_queue') \<Rightarrow>
                         Inr (Next_state backward_queue' backward_visited'
                                (nodes_explored + 1))))))"

lemma bidi_expand_dom: "dom (fst (bidi_expand ns path vis queue)) = dom vis \<union> set ns"
  by (induction ns arbitrary: vis queue) auto

lemma bidi_expand_same:
  "set ns \<subseteq> dom vis \<Longrightarrow> bidi_expand ns path vis queue = (vis, queue)"
  by (induction ns arbitrary: vis queue) auto

lemma bidi_expand_decreases:
  assumes "open_neighbours dirs maze width height c = Inr ns"
    and "bidi_expand ns path vis rest = (vis', queue')"
  shows "card (grid_cells width height - dom vis') < card (grid_cells width height - dom vis)
       \<or> (vis' = vis \<and> queue' = rest)"
proof -
  have ns: "set ns \<subseteq> grid_cells width height"
    using assms(1) by (rule open_neighbours_in_grid)
  have v: "dom vis' = dom vis \<union> set ns"
    using assms(2) bidi_expand_dom[of ns path vis rest] by simp
  show ?thesis
  proof (cases "set ns \<subseteq> dom vis")
    case True
    then show ?thesis using assms(2) bidi_expand_same[of ns vis path rest] by simp
  next
    case False
    then show ?thesis using card_grid_less[OF ns False] v by simp
  qed
qed

lemma forward_step_decreases:
  assumes "forward_step dirs maze width height fq fv bv n = Inr (Next_state fq' fv' n')"
  shows "(fq = [] \<and> fq' = [] \<and> fv' = fv)
       \<or> (fq \<noteq> [] \<and>
            (card (grid_cells width height - dom fv') < card (grid_cells width height - dom fv)
             \<or> (fv' = fv \<and> length fq' < length fq)))"
proof (cases fq)
  case Nil
  then show ?thesis using assms by (simp add: forward_step_def)
next
  case (Cons entry rest)
  obtain c path where e: "entry = (c, path)" by (cases entry)
  from assms Cons e obtain ns where
    ns: "open_neighbours dirs maze width height c = Inr ns"
    and ex: "bidi_expand ns path fv rest = (fv', fq')"
    by (auto simp: forward_step_def split: option.splits sum.splits prod.splits)
  from bidi_expand_decreases[OF ns ex] show ?thesis using Cons by auto
qed

lemma backward_step_decreases:
  assumes "backward_step dirs maze width height bq bv fv n = Inr (Next_state bq' bv' n')"
  shows "(bq = [] \<and> bq' = [] \<and> bv' = bv)
       \<or> (bq \<noteq> [] \<and>
            (card (grid_cells width height - dom bv') < card (grid_cells width height - dom bv)
             \<or> (bv' = bv \<and> length bq' < length bq)))"
proof (cases bq)
  case Nil
  then show ?thesis using assms by (simp add: backward_step_def)
next
  case (Cons entry rest)
  obtain c path where e: "entry = (c, path)" by (cases entry)
  from assms Cons e obtain ns where
    ns: "open_neighbours dirs maze width height c = Inr ns"
    and ex: "bidi_expand ns path bv rest = (bv', bq')"
    by (auto simp: backward_step_def split: option.splits sum.splits prod.splits)
  from bidi_expand_decreases[OF ns ex] show ?thesis using Cons by auto
qed

function bidirectional_loop ::
  "(int \<times> int) list \<Rightarrow> maze \<Rightarrow> int \<Rightarrow> int \<Rightarrow> frontier \<Rightarrow> visited_map \<Rightarrow> frontier \<Rightarrow> visited_map
     \<Rightarrow> nat \<Rightarrow> py_error + (cell list option \<times> nat)" where
  "bidirectional_loop dirs maze width height forward_queue forward_visited
       backward_queue backward_visited nodes_explored =
     (if forward_queue = [] \<and> backward_queue = [] then Inr (None, nodes_explored)
      else (case forward_step dirs maze width height forward_queue forward_visited
                   backward_visited nodes_explored of
              Inl e \<Rightarrow> Inl e
            | Inr (Found full_path n) \<Rightarrow> Inr (Some full_path, n)
            | Inr (Next_state forward_queue' forward_visited' n) \<Rightarrow>
                (case backward_step dirs maze width height backward_queue backward_visited
                        forward_visited' n of
                   Inl e \<Rightarrow> Inl e
                 | Inr (Found full_path n') \<Rightarrow> Inr (Some full_path, n')
                 | Inr (Next_state backward_queue' backward_visited' n') \<Rightarrow>
                     bidirectional_loop dirs maze width height forward_queue'
                       forward_visited' backward_queue' backward_visited' n')))"
  by pat_completeness auto
termination
proof (relation "measures
          [\<lambda>(dirs, maze, width, height, fq, fv, bq, bv, n).
              card (grid_cells width height - dom fv) + card (grid_cells width height - dom bv),
           \<lambda>(dirs, maze, width, height, fq, fv, bq, bv, n). length fq + length bq]",
       goal_cases)
  case 1
  then show ?case by auto
next
  case (2 dirs maze width height fq fv bq bv n fsr fq' fv' n1 bsr bq' bv' n2)
  then have f: "forward_step dirs maze width height fq fv bv n = Inr (Next_state fq' fv' n1)"
    and b: "backward_step dirs maze width height bq bv fv' n1 = Inr (Next_state bq' bv' n2)"
    by simp_all
  from forward_step_decreases[OF f] backward_step_decreases[OF b] 2(1)
  show ?case by auto
qed

declare bidirectional_loop.simps [simp del]

text \<open>\<open>_bidirectional(start, end, maze, width, height)\<close>.\<close>

definition bidirectional ::
  "(int \<times> int) list \<Rightarrow> cell \<Rightarrow> cell \<Rightarrow> maze \<Rightarrow> int \<Rightarrow> int \<Rightarrow> py_error + (cell list option \<times> nat)" where
  "bidirectional dirs start goal maze width height =
     (if start = goal then Inr (Some [start], 1)
      else bidirectional_loop dirs maze width height
             [(start, [start])] [start \<mapsto> [start]] [(goal, [goal])] [goal \<mapsto> [goal]] 0)"

subsection \<open>\<open>find_path\<close>\<close>

text \<open>
  \<open>find_path\<close> returns the path and the number of nodes explored; the elapsed
  wall-clock time is left out. The random source is returned with them because
  \<open>_dfs\<close> draws from it. The default depths of \<open>_dls\<close> and \<open>_ids\<close> are 50 and 100.
\<close>

definition keep_rng ::
  "rng \<Rightarrow> py_error + (cell list option \<times> nat) \<Rightarrow> py_error + (cell list option \<times> nat \<times> rng)" where
  "keep_rng r res =
     (case res of Inl e \<Rightarrow> Inl e | Inr (result, nodes_explored) \<Rightarrow> Inr (result, nodes_explored, r))"

text \<open>\<open>len(maze)\<close> and \<open>len(maze[0]) if maze else 0\<close>.\<close>

definition maze_height :: "maze \<Rightarrow> int" where
  "maze_height maze = int (length maze)"

definition maze_width :: "maze \<Rightarrow> int" where
  "maze_width maze = (if maze \<noteq> [] then int (length (maze ! 0)) else 0)"

definition find_path ::
  "(int \<times> int) list \<Rightarrow> rng \<Rightarrow> cell \<Rightarrow> cell \<Rightarrow> string \<Rightarrow> maze
     \<Rightarrow> py_error + (cell list option \<times> nat \<times> rng)" where
  "find_path dirs r start goal algorithm maze =
     (let height = maze_height maze;
          width = maze_width maze
      in if algorithm = ''BFS'' then keep_rng r (bfs dirs start goal maze width height)
         else if algorithm = ''UCS'' then keep_rng r (ucs dirs start goal maze width height)
         else if algorithm = ''DFS'' then dfs dirs r start goal maze width height
         else if algorithm = ''DLS'' then keep_rng r (dls dirs start goal maze width height 50)
         else if algorithm = ''IDS'' then keep_rng r (ids dirs start goal maze width height 100)
         else if algorithm = ''Bidirectional''
         then keep_rng r (bidirectional dirs start goal maze width height)
         else keep_rng r (bfs dirs start goal maze width height))"

section \<open>Feature placement (main3.py)\<close>

text \<open>
  The fields of the game object that \<open>setup_difficulty_features\<close> writes. \<open>max_moves\<close>,
  which it derives afterwards from the game's own trap-avoiding search, is not part of
  the feature set and is left out.
\<close>

record features =
  fs_keys :: "cell list"
  fs_traps :: "cell list"
  fs_teleporters :: "(cell \<times> cell) list"
  fs_enemy_pos :: "cell option"
  fs_enemy_path :: "cell list"

text \<open>
  \<open>empty_spaces\<close>: the cells strictly inside the border, row by row, that are path and
  neither the start nor the exit.
\<close>

fun collect_empty :: "maze \<Rightarrow> cell \<Rightarrow> cell list \<Rightarrow> py_error + cell list" where
  "collect_empty maze end_pos [] = Inr []"
| "collect_empty maze end_pos (c # cs) =
     (case maze_get maze (fst c) (snd c) of
        Inl e \<Rightarrow> Inl e
      | Inr v \<Rightarrow>
          (case collect_empty maze end_pos cs of
             Inl e \<Rightarrow> Inl e
           | Inr rest \<Rightarrow>
               Inr (if v = 0 \<and> c \<notin> set [(1, 1), end_pos] then c # rest else rest)))"

definition inner_cells :: "int \<Rightarrow> int \<Rightarrow> cell list" where
  "inner_cells width height =
     concat (map (\<lambda>y. map (\<lambda>x. (x, y)) [1..width - 2]) [1..height - 2])"

definition empty_spaces :: "maze \<Rightarrow> int \<Rightarrow> int \<Rightarrow> cell \<Rightarrow> py_error + cell list" where
  "empty_spaces maze width height end_pos =
     collect_empty maze end_pos (inner_cells width height)"

text \<open>
  The sampling loop used for keys and traps: up to \<open>n\<close> times, if any candidate is
  left, choose one, append it and remove it from the candidates.
\<close>

fun pick_cells :: "nat \<Rightarrow> rng \<Rightarrow> cell list \<Rightarrow> cell list \<Rightarrow> cell list \<times> cell list \<times> rng" where
  "pick_cells 0 r available picked = (picked, available, r)"
| "pick_cells (Suc n) r available picked =
     (if available \<noteq> []
      then (case choice r available of
              (pos, r') \<Rightarrow> pick_cells n r' (remove1 pos available) (picked @ [pos]))
      else pick_cells n r available picked)"

text \<open>The two teleporter pairs, placed only when at least four candidates exist.\<close>

fun pick_pairs ::
  "nat \<Rightarrow> rng \<Rightarrow> cell list \<Rightarrow> (cell \<times> cell) list \<Rightarrow> (cell \<times> cell) list \<times> rng" where
  "pick_pairs 0 r candidates pairs = (pairs, r)"
| "pick_pairs (Suc n) r candidates pairs =
     (case choice r candidates of
        (pos1, r1) \<Rightarrow>
          (case choice r1 (remove1 pos1 candidates) of
             (pos2, r2) \<Rightarrow>
               pick_pairs n r2 (remove1 pos2 (remove1 pos1 candidates))
                 (pairs @ [(pos1, pos2)])))"

subsection \<open>The solvability check\<close>

text \<open>
  \<open>bfs_avoid_enemy\<close>: breadth-first search over path cells that are not on the enemy
  patrol, returning whether the target was dequeued.
\<close>

fun avoid_expand ::
  "cell list \<Rightarrow> cell list \<Rightarrow> cell set \<Rightarrow> cell set \<Rightarrow> frontier \<Rightarrow> cell set \<times> frontier" where
  "avoid_expand [] path visited blocked queue = (visited, queue)"
| "avoid_expand (n # ns) path visited blocked queue =
     (if n \<notin> visited \<and> n \<notin> blocked
      then avoid_expand ns path (insert n visited) blocked (queue @ [(n, path @ [n])])
      else avoid_expand ns path visited blocked queue)"

lemma avoid_expand_visited:
  "fst (avoid_expand ns path visited blocked queue) = visited \<union> (set ns - blocked)"
  by (induction ns arbitrary: visited queue) auto

lemma avoid_expand_same:
  "set ns - blocked \<subseteq> visited \<Longrightarrow> avoid_expand ns path visited blocked queue = (visited, queue)"
  by (induction ns arbitrary: visited queue) auto

lemma avoid_step_decreases:
  assumes "open_neighbours dirs maze width height c = Inr ns"
    and "avoid_expand ns path visited blocked rest = (visited', queue')"
  shows "card (grid_cells width height - visited') < card (grid_cells width height - visited)
       \<or> (visited' = visited \<and> queue' = rest)"
proof -
  have ns: "set ns \<subseteq> grid_cells width height"
    using assms(1) by (rule open_neighbours_in_grid)
  have v: "visited' = visited \<union> (set ns - blocked)"
    using assms(2) avoid_expand_visited[of ns path visited blocked rest] by simp
  show ?thesis
  proof (cases "set ns - blocked \<subseteq> visited")
    case True
    then show ?thesis using assms(2) avoid_expand_same[of ns blocked visited path rest] by simp
  next
    case False
    have "grid_cells width height - visited' \<subset> grid_cells width height - visited"
      using ns v False by blast
    then show ?thesis by (simp add: psubset_card_mono finite_grid_cells)
  qed
qed

function bfs_avoid_enemy_loop ::
  "maze \<Rightarrow> int \<Rightarrow> int \<Rightarrow> cell set \<Rightarrow> cell \<Rightarrow> frontier \<Rightarrow> cell set \<Rightarrow> py_error + bool" where
  "bfs_avoid_enemy_loop maze width height blocked goal queue visited =
     (case queue of
        [] \<Rightarrow> Inr False
      | (c, path) # rest \<Rightarrow>
          if c = goal then Inr True
          else (case open_neighbours [(0, 1), (1, 0), (0, -1), (-1, 0)] maze width height c of
                  Inl e \<Rightarrow> Inl e
                | Inr ns \<Rightarrow>
                    (case avoid_expand ns path visited blocked rest of
                       (visited', queue') \<Rightarrow>
                         bfs_avoid_enemy_loop maze width height blocked goal queue' visited')))"
  by pat_completeness auto
termination
proof (relation "measures
          [\<lambda>(maze, width, height, blocked, goal, queue, visited).
              card (grid_cells width height - visited),
           \<lambda>(maze, width, height, blocked, goal, queue, visited). length queue]",
       goal_cases)
  case 1
  then show ?case by auto
next
  case (2 maze width height blocked goal queue visited entry rest c path ns visited' queue')
  then have "open_neighbours [(0, 1), (1, 0), (0, -1), (-1, 0)] maze width height c = Inr ns"
    and "avoid_expand ns path visited blocked rest = (visited', queue')"
    by simp_all
  from avoid_step_decreases[OF this] show ?case using 2(1) by auto
qed

declare bfs_avoid_enemy_loop.simps [simp del]

definition bfs_avoid_enemy ::
  "maze \<Rightarrow> int \<Rightarrow> int \<Rightarrow> cell set \<Rightarrow> cell \<Rightarrow> cell \<Rightarrow> py_error + bool" where
  "bfs_avoid_enemy maze width height blocked start goal =
     bfs_avoid_enemy_loop maze width height blocked goal [(start, [start])] {start}"

text \<open>
  \<open>min(test_keys, key=...)\<close> with the Manhattan distance to \<open>test_pos\<close>: the first key
  among those at the least distance.
\<close>

definition manhattan :: "cell \<Rightarrow> cell \<Rightarrow> int" where
  "manhattan a b = \<bar>fst b - fst a\<bar> + \<bar>snd b - snd a\<bar>"

fun py_min_by :: "('a \<Rightarrow> int) \<Rightarrow> 'a \<Rightarrow> 'a list \<Rightarrow> 'a" where
  "py_min_by f best [] = best"
| "py_min_by f best (x # xs) = (if f x < f best then py_min_by f x xs else py_min_by f best xs)"

lemma py_min_by_in: "py_min_by f best xs \<in> set (best # xs)"
  by (induction xs arbitrary: best) auto

definition nearest_key :: "cell \<Rightarrow> cell \<Rightarrow> cell list \<Rightarrow> cell" where
  "nearest_key test_pos k ks = py_min_by (manhattan test_pos) k ks"

text \<open>
  The \<open>while test_keys\<close> loop of \<open>is_solvable_with_enemy\<close> and the last leg to the exit.
\<close>

function chain_reachable ::
  "maze \<Rightarrow> int \<Rightarrow> int \<Rightarrow> cell set \<Rightarrow> cell \<Rightarrow> cell list \<Rightarrow> cell \<Rightarrow> py_error + bool" where
  "chain_reachable maze width height blocked test_pos test_keys end_pos =
     (case test_keys of
        [] \<Rightarrow> bfs_avoid_enemy maze width height blocked test_pos end_pos
      | k # ks \<Rightarrow>
          (case bfs_avoid_enemy maze width height blocked test_pos (nearest_key test_pos k ks) of
             Inl e \<Rightarrow> Inl e
           | Inr ok \<Rightarrow>
               if \<not> ok then Inr False
               else chain_reachable maze width height blocked (nearest_key test_pos k ks)
                      (remove1 (nearest_key test_pos k ks) test_keys) end_pos))"
  by pat_completeness auto
termination
proof (relation "measure (\<lambda>(maze, width, height, blocked, test_pos, test_keys, end_pos).
                   length test_keys)", goal_cases)
  case 1
  then show ?case by simp
next
  case (2 maze width height blocked test_pos test_keys end_pos k ks ok)
  have "nearest_key test_pos k ks \<in> set (k # ks)"
    unfolding nearest_key_def by (rule py_min_by_in)
  then have "length (remove1 (nearest_key test_pos k ks) (k # ks)) < length (k # ks)"
    by (simp only: length_remove1 if_True) simp
  then show ?case using 2 by simp
qed

declare chain_reachable.simps [simp del]

definition is_solvable_with_enemy ::
  "maze \<Rightarrow> int \<Rightarrow> int \<Rightarrow> cell \<Rightarrow> features \<Rightarrow> py_error + bool" where
  "is_solvable_with_enemy maze width height end_pos fs =
     chain_reachable maze width height (set (fs_enemy_path fs)) (1, 1) (fs_keys fs) end_pos"

subsection \<open>\<open>setup_difficulty_features\<close>\<close>

text \<open>
  One round of the retry loop up to the solvability check. \<open>old_enemy_path\<close> is the
  value of \<open>self.enemy_path\<close> before the round, which \<open>create_enemy_path\<close> leaves in
  place when there is no cell for the enemy.
\<close>

definition place_attempt ::
  "maze \<Rightarrow> int \<Rightarrow> int \<Rightarrow> cell \<Rightarrow> nat \<Rightarrow> cell list \<Rightarrow> rng \<Rightarrow> py_error + (features \<times> rng)" where
  "place_attempt maze width height end_pos required_keys old_enemy_path r =
     (case empty_spaces maze width height end_pos of
        Inl e \<Rightarrow> Inl e
      | Inr spaces \<Rightarrow>
          (case pick_cells required_keys r spaces [] of
             (keys, available, r1) \<Rightarrow>
               (let trap_candidates = filter (\<lambda>pos. pos \<notin> set keys) spaces;
                    num_traps = min 8 (length trap_candidates div 10)
                in case pick_cells num_traps r1 trap_candidates [] of
                     (traps, trap_rest, r2) \<Rightarrow>
                       (let tele_candidates =
                              filter (\<lambda>pos. pos \<notin> set keys \<and> pos \<notin> set traps) spaces
                        in case (if length tele_candidates \<ge> 4
                                 then pick_pairs 2 r2 tele_candidates []
                                 else ([], r2)) of
                             (teleporters, r3) \<Rightarrow>
                               (let enemy_candidates =
                                      filter (\<lambda>pos. pos \<notin> set keys \<and> pos \<notin> set traps) spaces
                                in case (if enemy_candidates \<noteq> []
                                         then (case choice r3 enemy_candidates of
                                                 (pos, r4) \<Rightarrow> (Some pos, r4))
                                         else (None, r3)) of
                                     (enemy, r4) \<Rightarrow>
                                       (case create_enemy_path enemy old_enemy_path maze
                                               width height of
                                          Inl e \<Rightarrow> Inl e
                                        | Inr path \<Rightarrow>
                                            Inr (\<lparr>fs_keys = keys, fs_traps = traps,
                                                  fs_teleporters = teleporters,
                                                  fs_enemy_pos = enemy,
                                                  fs_enemy_path = path\<rparr>, r4)))))))"

text \<open>The fallback after the loop: keys and enemy only, with no check.\<close>

definition place_fallback ::
  "maze \<Rightarrow> int \<Rightarrow> int \<Rightarrow> cell \<Rightarrow> nat \<Rightarrow> cell list \<Rightarrow> rng \<Rightarrow> py_error + (features \<times> rng)" where
  "place_fallback maze width height end_pos required_keys old_enemy_path r =
     (case empty_spaces maze width height end_pos of
        Inl e \<Rightarrow> Inl e
      | Inr spaces \<Rightarrow>
          (case pick_cells required_keys r spaces [] of
             (keys, available, r1) \<Rightarrow>
               (case (if available \<noteq> []
                      then (case choice r1 available of (pos, r2) \<Rightarrow> (Some pos, r2))
                      else (None, r1)) of
                  (enemy, r2) \<Rightarrow>
                    (case create_enemy_path enemy old_enemy_path maze width height of
                       Inl e \<Rightarrow> Inl e
                     | Inr path \<Rightarrow>
                         Inr (\<lparr>fs_keys = keys, fs_traps = [], fs_teleporters = [],
                               fs_enemy_pos = enemy, fs_enemy_path = path\<rparr>, r2)))))"

text \<open>
  How \<open>setup_difficulty_features\<close> ended: by the \<open>return\<close> inside the loop, or by
  running through the fallback.
\<close>

datatype placement = Accepted features rng | Fallback features rng

fun retry_loop ::
  "nat \<Rightarrow> maze \<Rightarrow> int \<Rightarrow> int \<Rightarrow> cell \<Rightarrow> nat \<Rightarrow> cell list \<Rightarrow> rng \<Rightarrow> py_error + placement" where
  "retry_loop 0 maze width height end_pos required_keys old_enemy_path r =
     (case place_fallback maze width height end_pos required_keys old_enemy_path r of
        Inl e \<Rightarrow> Inl e
      | Inr (fs, r') \<Rightarrow> Inr (Fallback fs r'))"
| "retry_loop (Suc n) maze width height end_pos required_keys old_enemy_path r =
     (case place_attempt maze width height end_pos required_keys old_enemy_path r of
        Inl e \<Rightarrow> Inl e
      | Inr (fs, r') \<Rightarrow>
          (case is_solvable_with_enemy maze width height end_pos fs of
             Inl e \<Rightarrow> Inl e
           | Inr ok \<Rightarrow>
               if ok then Inr (Accepted fs r')
               else retry_loop n maze width height end_pos required_keys
                      (fs_enemy_path fs) r'))"

definition max_attempts :: nat where
  "max_attempts = 20"

definition setup_difficulty_features ::
  "maze \<Rightarrow> int \<Rightarrow> int \<Rightarrow> cell \<Rightarrow> nat \<Rightarrow> cell list \<Rightarrow> rng \<Rightarrow> py_error + placement" where
  "setup_difficulty_features maze width height end_pos required_keys old_enemy_path r =
     retry_loop max_attempts maze width height end_pos required_keys old_enemy_path r"

section \<open>The maze as a graph\<close>

text \<open>
  The notions the properties are stated in. A step leads from any cell to a
  4-directional neighbour that is a path cell inside the bounds; the cell a walk starts
  from is not tested.
\<close>

definition unit_step :: "cell \<Rightarrow> cell \<Rightarrow> bool" where
  "unit_step a b \<longleftrightarrow> \<bar>fst b - fst a\<bar> + \<bar>snd b - snd a\<bar> = 1"

text \<open>The open neighbours of a cell in direction order, on a rectangular maze.\<close>

definition nbrs :: "(int \<times> int) list \<Rightarrow> maze \<Rightarrow> int \<Rightarrow> int \<Rightarrow> cell \<Rightarrow> cell list" where
  "nbrs dirs maze width height c =
     filter (is_path maze width height) (map (\<lambda>d. (fst c + fst d, snd c + snd d)) dirs)"

text \<open>
  A walk: consecutive cells one unit step apart, every cell after the first a path
  cell. A route from \<open>s\<close> to \<open>t\<close> is a walk that starts at \<open>s\<close> and ends at \<open>t\<close>; its
  length is counted in cells.
\<close>

definition walk :: "maze \<Rightarrow> int \<Rightarrow> int \<Rightarrow> cell list \<Rightarrow> bool" where
  "walk maze width height p \<longleftrightarrow>
     p \<noteq> [] \<and> successively unit_step p \<and> list_all (is_path maze width height) (tl p)"

definition route :: "maze \<Rightarrow> int \<Rightarrow> int \<Rightarrow> cell \<Rightarrow> cell \<Rightarrow> cell list \<Rightarrow> bool" where
  "route maze width height s t p \<longleftrightarrow> walk maze width height p \<and> hd p = s \<and> last p = t"

definition shortest_route :: "maze \<Rightarrow> int \<Rightarrow> int \<Rightarrow> cell \<Rightarrow> cell \<Rightarrow> cell list \<Rightarrow> bool" where
  "shortest_route maze width height s t p \<longleftrightarrow>
     route maze width height s t p \<and> (\<forall>q. route maze width height s t q \<longrightarrow> length p \<le> length q)"

text \<open>Reachability: there is a route.\<close>

definition reachable :: "maze \<Rightarrow> int \<Rightarrow> int \<Rightarrow> cell \<Rightarrow> cell \<Rightarrow> bool" where
  "reachable maze width height s t \<longleftrightarrow> (\<exists>p. route maze width height s t p)"

text \<open>
  The room cells: odd coordinates strictly inside the border.
\<close>

definition room_cell :: "int \<Rightarrow> int \<Rightarrow> cell \<Rightarrow> bool" where
  "room_cell width height c \<longleftrightarrow>
     odd (fst c) \<and> odd (snd c) \<and> 0 < fst c \<and> fst c < width - 1 \<and> 0 < snd c \<and> snd c < height - 1"

text \<open>
  \<open>maze'\<close> differs from \<open>maze\<close> only in cells that were wall and are now path.
\<close>

definition only_carved :: "maze \<Rightarrow> maze \<Rightarrow> int \<Rightarrow> int \<Rightarrow> bool" where
  "only_carved maze maze' width height \<longleftrightarrow>
     (\<forall>x y. 0 \<le> x \<and> x < width \<and> 0 \<le> y \<and> y < height \<longrightarrow>
        maze_get maze' x y = maze_get maze x y
        \<or> (maze_get maze x y = Inr 1 \<and> maze_get maze' x y = Inr 0))"

text \<open>Every path cell can be reached from the start cell \<open>(1, 1)\<close>.\<close>

definition connected_maze :: "maze \<Rightarrow> int \<Rightarrow> int \<Rightarrow> bool" where
  "connected_maze maze width height \<longleftrightarrow>
     (\<forall>c. is_path maze width height c \<longrightarrow> reachable maze width height (1, 1) c)"

text \<open>
  The invariant of the carving loop: the maze is a rectangle of zeros and ones, the
  start cell is path, every path cell is reachable from it, the stack holds room cells
  that are path, and a room cell that is path and no longer on the stack has all its
  room neighbours carved.
\<close>

definition binary_maze :: "maze \<Rightarrow> int \<Rightarrow> int \<Rightarrow> bool" where
  "binary_maze maze width height \<longleftrightarrow>
     (\<forall>x y. 0 \<le> x \<and> x < width \<and> 0 \<le> y \<and> y < height \<longrightarrow>
        maze_get maze x y = Inr 0 \<or> maze_get maze x y = Inr 1)"

definition carve_inv :: "int \<Rightarrow> int \<Rightarrow> maze \<Rightarrow> cell list \<Rightarrow> bool" where
  "carve_inv width height maze stack \<longleftrightarrow>
     rect_maze maze width height \<and> binary_maze maze width height
     \<and> is_path maze width height (1, 1) \<and> connected_maze maze width height
     \<and> (\<forall>c\<in>set stack. room_cell width height c \<and> is_path maze width height c)
     \<and> (\<forall>c. room_cell width height c \<and> is_path maze width height c \<and> c \<notin> set stack \<longrightarrow>
           (\<forall>d\<in>set lattice_steps.
              room_cell width height (fst c + fst d, snd c + snd d) \<longrightarrow>
              is_path maze width height (fst c + fst d, snd c + snd d)))"

text \<open>The maze after \<open>maze[y][x] = 0\<close> at a position inside a rectangular maze.\<close>

definition carve :: "maze \<Rightarrow> int \<Rightarrow> int \<Rightarrow> maze" where
  "carve maze x y = maze[nat y := (maze ! nat y)[nat x := 0]]"

text \<open>A route none of whose cells after the first is blocked.\<close>

definition avoiding_route ::
  "maze \<Rightarrow> int \<Rightarrow> int \<Rightarrow> cell set \<Rightarrow> cell \<Rightarrow> cell \<Rightarrow> cell list \<Rightarrow> bool" where
  "avoiding_route maze width height blocked s t p \<longleftrightarrow>
     route maze width height s t p \<and> set (tl p) \<inter> blocked = {}"

text \<open>
  The solvability chain in the words of the specification, written without the
  functions of the code. \<open>nearest_first pos order\<close>: going through the keys in this
  order from \<open>pos\<close>, every key is, among the keys not yet visited, one at the least
  Manhattan distance from the position before it. \<open>chain_legs pos order exit_pos\<close> are
  the consecutive legs from \<open>pos\<close> through the keys in that order to the exit.
\<close>

fun nearest_first :: "cell \<Rightarrow> cell list \<Rightarrow> bool" where
  "nearest_first pos [] = True"
| "nearest_first pos (k # ks) =
     (list_all (\<lambda>k'. \<bar>fst k - fst pos\<bar> + \<bar>snd k - snd pos\<bar>
                      \<le> \<bar>fst k' - fst pos\<bar> + \<bar>snd k' - snd pos\<bar>) ks
      \<and> nearest_first k ks)"

definition chain_legs :: "cell \<Rightarrow> cell list \<Rightarrow> cell \<Rightarrow> (cell \<times> cell) list" where
  "chain_legs pos order exit_pos = zip (pos # order) (order @ [exit_pos])"

text \<open>How the placement ended and what it placed.\<close>

fun accepted :: "placement \<Rightarrow> bool" where
  "accepted (Accepted fs r) = True"
| "accepted (Fallback fs r) = False"

fun placed :: "placement \<Rightarrow> features" where
  "placed (Accepted fs r) = fs"
| "placed (Fallback fs r) = fs"



text \<open>
  A route from \<open>c\<close> that visits no cell twice and, after \<open>c\<close>, no cell of \<open>visited\<close>:
  what the depth-limited search can still follow from \<open>c\<close>.
\<close>

definition simple_route :: "maze \<Rightarrow> int \<Rightarrow> int \<Rightarrow> cell set \<Rightarrow> cell \<Rightarrow> cell \<Rightarrow> cell list \<Rightarrow> bool" where
  "simple_route maze w h visited c goal q \<longleftrightarrow>
     route maze w h c goal q \<and> distinct q \<and> set (tl q) \<inter> visited = {}"

text \<open>The two components of what \<open>_dls\<close> returns at a depth limit.\<close>

definition dls_nodes :: "(int \<times> int) list \<Rightarrow> cell \<Rightarrow> cell \<Rightarrow> maze \<Rightarrow> int \<Rightarrow> int \<Rightarrow> int \<Rightarrow> nat" where
  "dls_nodes dirs start goal maze w h d =
     (case dls dirs start goal maze w h d of Inl e \<Rightarrow> 0 | Inr (result, nodes_explored) \<Rightarrow> nodes_explored)"

definition dls_result ::
  "(int \<times> int) list \<Rightarrow> cell \<Rightarrow> cell \<Rightarrow> maze \<Rightarrow> int \<Rightarrow> int \<Rightarrow> int \<Rightarrow> cell list option" where
  "dls_result dirs start goal maze w h d =
     (case dls dirs start goal maze w h d of Inl e \<Rightarrow> None | Inr (result, nodes_explored) \<Rightarrow> result)"

section \<open>Basic facts\<close>

lemma shuffle_from_mset: "mset (fst (shuffle_from i r xs)) = mset xs"
proof (induction i arbitrary: r xs)
  case 0 show ?case by simp
next
  case (Suc i)
  show ?case
  proof (cases "Suc i < length xs")
    case True
    have "r 0 mod (Suc i + 1) < Suc i + 1" by (rule mod_less_divisor) simp
    then have j: "r 0 mod (Suc i + 1) < length xs" using True by linarith
    show ?thesis using True Suc.IH j by (simp add: Let_def mset_swap)
  next
    case False then show ?thesis using Suc.IH by simp
  qed
qed

lemma shuffle_mset: "mset (fst (shuffle r xs)) = mset xs"
  by (simp add: shuffle_def shuffle_from_mset)


lemma directions_ok_set: "directions_ok dirs \<Longrightarrow> set dirs = set DIRECTIONS"
  unfolding directions_ok_def by (metis set_mset_mset)

lemma py_index_in: "0 \<le> i \<Longrightarrow> i < int (length xs) \<Longrightarrow> py_index xs i = Inr (xs ! nat i)"
  by (simp add: py_index_def)

lemma cell_open_rect:
  assumes "rect_maze maze w h"
  shows "cell_open maze w h x y = Inr (0 \<le> x \<and> x < w \<and> 0 \<le> y \<and> y < h \<and> maze ! nat y ! nat x = 0)"
proof (cases "0 \<le> x \<and> x < w \<and> 0 \<le> y \<and> y < h")
  case True
  then have y: "nat y < length maze" using assms by (auto simp: rect_maze_def)
  then have "int (length (maze ! nat y)) = w" using assms by (auto simp: rect_maze_def list_all_length)
  then show ?thesis using True y assms
    by (simp add: cell_open_def maze_get_def py_index_in rect_maze_def)
next
  case False then show ?thesis by (auto simp: cell_open_def)
qed

lemma cell_open_rect_is_path:
  "rect_maze maze w h \<Longrightarrow> cell_open maze w h x y = Inr (is_path maze w h (x, y))"
  by (simp add: is_path_def cell_open_rect)


section \<open>Properties of the enemy patrol path\<close>

lemma patrol_next_rect:
  assumes "rect_maze maze w h"
  shows "patrol_next maze w h c visited ds =
     Inr (case filter (\<lambda>n. is_path maze w h n \<and> n \<notin> visited) (map (\<lambda>d. (fst c + fst d, snd c + snd d)) ds)
          of [] \<Rightarrow> None | n # _ \<Rightarrow> Some n)"
  by (induction ds) (auto simp: cell_open_rect_is_path[OF assms] Let_def)

lemma patrol_extend_props:
  assumes "rect_maze maze w h"
  shows "\<exists>dirs' r' ext. patrol_extend n maze w h dirs r path current visited = Inr (dirs', r', path @ ext)
      \<and> mset dirs' = mset dirs
      \<and> ((\<exists>d\<in>set dirs. is_path maze w h (fst current + fst d, snd current + snd d)
              \<and> (fst current + fst d, snd current + snd d) \<notin> visited) \<and> 0 < n \<longrightarrow> ext \<noteq> [])
      \<and> (ext \<noteq> [] \<longrightarrow> (\<exists>d\<in>set dirs. hd ext = (fst current + fst d, snd current + snd d)
              \<and> is_path maze w h (hd ext)))"
proof (induction n arbitrary: dirs r path current visited)
  case 0 show ?case by simp
next
  case (Suc n)
  obtain dirs1 r1 where sh: "shuffle r dirs = (dirs1, r1)" by (cases "shuffle r dirs")
  have ms: "mset dirs1 = mset dirs" using shuffle_mset[of r dirs] sh by simp
  then have st: "set dirs1 = set dirs" by (metis set_mset_mset)
  let ?f = "filter (\<lambda>n. is_path maze w h n \<and> n \<notin> visited) (map (\<lambda>d. (fst current + fst d, snd current + snd d)) dirs1)"
  show ?case
  proof (cases ?f)
    case Nil
    then have "\<not> (\<exists>d\<in>set dirs. is_path maze w h (fst current + fst d, snd current + snd d)
              \<and> (fst current + fst d, snd current + snd d) \<notin> visited)"
      using st by (auto simp: filter_empty_conv)
    then show ?thesis using Nil sh ms by (simp add: patrol_next_rect[OF assms])
  next
    case (Cons c cs)
    then have "c \<in> set ?f" by simp
    then have c: "\<exists>d\<in>set dirs. c = (fst current + fst d, snd current + snd d) \<and> is_path maze w h c"
      using st by auto
    from Suc.IH[of dirs1 r1 "path @ [c]" c "insert c visited"]
    obtain dirs' r' ext where "patrol_extend n maze w h dirs1 r1 (path @ [c]) c (insert c visited) = Inr (dirs', r', (path @ [c]) @ ext)"
      "mset dirs' = mset dirs1" by blast
    then have "patrol_extend (Suc n) maze w h dirs r path current visited = Inr (dirs', r', path @ (c # ext))"
      "mset dirs' = mset dirs"
      using Cons sh ms by (simp_all add: patrol_next_rect[OF assms])
    then show ?thesis using c by (intro exI[of _ dirs'] exI[of _ r'] exI[of _ "c # ext"]) simp
  qed
qed

lemma enemy_extend_props:
  assumes "rect_maze maze w h"
  shows "\<exists>ext. enemy_extend n maze w h path current = Inr (path @ ext)"
proof (induction n arbitrary: path current)
  case 0 show ?case by simp
next
  case (Suc n)
  let ?f = "filter (\<lambda>n. is_path maze w h n \<and> n \<notin> set path)
      (map (\<lambda>d. (fst current + fst d, snd current + snd d)) [(1, 0), (0, 1), (-1, 0), (0, -1)])"
  show ?case
  proof (cases ?f)
    case Nil
    then show ?thesis using Suc.IH[of path current]
      by (simp only: enemy_extend.simps patrol_next_rect[OF assms] list.case sum.case option.case)
  next
    case (Cons c cs)
    from Suc.IH[of "path @ [c]" c] obtain ext where
      "enemy_extend n maze w h (path @ [c]) c = Inr ((path @ [c]) @ ext)" by blast
    then have "enemy_extend n maze w h (path @ [c]) c = Inr (path @ (c # ext))" by simp
    then show ?thesis using Cons
      by (simp only: enemy_extend.simps patrol_next_rect[OF assms] list.case sum.case option.case) blast
  qed
qed

lemma list_index_less: "list_index xs v = Some i \<Longrightarrow> i < length xs"
  by (induction xs arbitrary: i) (auto split: if_splits)

lemma next_index_ok:
  assumes "xs \<noteq> []"
  shows "\<exists>n q. py_mod (ci + 1) (int (length xs)) = Inr n \<and> py_index xs n = Inr q"
proof -
  have l: "int (length xs) > 0" using assms by simp
  then have "0 \<le> (ci + 1) mod int (length xs)" "(ci + 1) mod int (length xs) < int (length xs)"
    by simp_all
  then show ?thesis using l by (simp add: py_mod_def py_index_in)
qed

lemma enemy_move_total:
  assumes "e_path en \<noteq> []"
  shows "\<exists>en'. enemy_move en = Inr en' \<and> (length (e_path en) < 2 \<longrightarrow> en' = en)"
proof (cases "e_pos en")
  case None then show ?thesis by (simp add: enemy_move_def)
next
  case (Some p)
  show ?thesis
  proof (cases "length (e_path en) < 2")
    case True then show ?thesis using Some by (simp add: enemy_move_def)
  next
    case False
    from next_index_ok[OF assms] obtain n q where
      "py_mod ((case list_index (e_path en) p of Some i \<Rightarrow> int i | None \<Rightarrow> 0) + 1) (int (length (e_path en))) = Inr n"
      "py_index (e_path en) n = Inr q" by blast
    then show ?thesis using Some False assms
      by (simp add: enemy_move_def Let_def)
  qed
qed

lemma move_enemy_total:
  assumes "path \<noteq> []"
  shows "\<exists>st. move_enemy (q, path, k) = Inr st"
proof (cases q)
  case None then show ?thesis by (simp add: move_enemy_def)
next
  case (Some p)
  from next_index_ok[OF assms] obtain n q' where
    "py_mod ((case list_index path p of Some i \<Rightarrow> int i | None \<Rightarrow> 0) + 1) (int (length path)) = Inr n"
    "py_index path n = Inr q'" by blast
  then show ?thesis using Some assms by (simp add: move_enemy_def Let_def)
qed

lemma unit_step_moves: "d \<in> set DIRECTIONS \<Longrightarrow> (fst p + fst d, snd p + snd d) \<noteq> p"
  by (cases p) (auto simp: DIRECTIONS_def)

text \<open>
  C9 (as amended). On a rectangular maze, with the directions some arrangement of the
  four unit steps, \<open>create_patrol_path\<close> for a spawn cell \<open>p\<close> always returns a
  path that starts with \<open>p\<close>. When the greedy extension gives fewer than three cells,
  the result is \<open>p\<close> followed by the first open neighbour of \<open>p\<close> in the order in
  which the last shuffle left the direction list, if \<open>p\<close> has an open neighbour, and
  the single cell \<open>[p]\<close> if it has none; \<open>nbrs\<close> lists the open neighbours in that
  order. Otherwise the result is the greedy path. So the path has at least two cells
  exactly when \<open>p\<close> has an open neighbour. \<open>Enemy.move\<close> on the result never raises
  and leaves an enemy with a path of fewer than two cells unchanged. The patrol path
  of main3.py also starts with the spawn cell and is never empty, so \<open>move_enemy\<close>
  never divides by zero.
\<close>

theorem create_patrol_path_cells:
  assumes "rect_maze maze width height" and "directions_ok dirs" and "e_pos en = Some p"
  shows "\<exists>en' dirs' r' greedy.
     create_patrol_path en dirs r maze width height = Inr (en', dirs', r') \<and>
     map_sum id (\<lambda>(ds, r'', g). (ds, g)) (patrol_extend 10 maze width height dirs r [p] p {p})
       = Inr (dirs', greedy) \<and>
     directions_ok dirs' \<and>
     e_path en' = (if length greedy < 3 then p # take 1 (nbrs dirs' maze width height p)
                   else greedy) \<and>
     hd (e_path en') = p \<and>
     (if \<exists>d\<in>set DIRECTIONS. is_path maze width height (fst p + fst d, snd p + snd d)
      then 2 \<le> length (e_path en') \<and>
           (\<exists>d\<in>set DIRECTIONS. e_path en' ! 1 = (fst p + fst d, snd p + snd d)
               \<and> is_path maze width height (e_path en' ! 1))
      else e_path en' = [p]) \<and>
     (if length greedy < 3 then length (e_path en') \<le> 2 else e_path en' = greedy) \<and>
     (\<exists>en''. enemy_move en' = Inr en'' \<and> (length (e_path en') < 2 \<longrightarrow> en'' = en')) \<and>
     (\<exists>path. create_enemy_path (Some p) old_path maze width height = Inr path \<and> hd path = p
         \<and> path \<noteq> [] \<and> (\<exists>st. move_enemy (Some q, path, k) = Inr st))"
proof -
  let ?nb = "\<lambda>d. (fst p + fst d, snd p + snd d)"
  let ?ex = "\<exists>d\<in>set DIRECTIONS. is_path maze width height (?nb d)"
  from patrol_extend_props[OF assms(1), of 10 dirs r "[p]" p "{p}"]
  obtain dirs' r' ext where
    pe: "patrol_extend 10 maze width height dirs r [p] p {p} = Inr (dirs', r', [p] @ ext)"
    and ms: "mset dirs' = mset dirs"
    and ne: "(\<exists>d\<in>set dirs. is_path maze width height (?nb d) \<and> ?nb d \<notin> {p}) \<longrightarrow> ext \<noteq> []"
    and hd_ext: "ext \<noteq> [] \<longrightarrow> (\<exists>d\<in>set dirs. hd ext = ?nb d \<and> is_path maze width height (hd ext))"
    by auto
  have ok': "directions_ok dirs'" using ms assms(2) by (simp add: directions_ok_def)
  have sd: "set dirs' = set DIRECTIONS" "set dirs = set DIRECTIONS"
    using ok' assms(2) by (simp_all add: directions_ok_set)
  let ?f = "filter (\<lambda>n. is_path maze width height n \<and> n \<notin> {}) (map ?nb dirs')"
  have fb: "patrol_next maze width height p {} dirs' = Inr (case ?f of [] \<Rightarrow> None | n # _ \<Rightarrow> Some n)"
    by (rule patrol_next_rect[OF assms(1)])
  have ex_ext: "?ex \<Longrightarrow> ext \<noteq> []" using ne sd unit_step_moves by auto
  from enemy_extend_props[OF assms(1), of 6 "[p]" p] obtain ext3 where
    e3: "enemy_extend 6 maze width height [p] p = Inr ([p] @ ext3)" by blast
  have m3: "\<exists>st. move_enemy (Some q, [p] @ ext3, k) = Inr st" by (rule move_enemy_total) simp
  have main3: "\<exists>path. create_enemy_path (Some p) old_path maze width height = Inr path \<and> hd path = p
         \<and> path \<noteq> [] \<and> (\<exists>st. move_enemy (Some q, path, k) = Inr st)"
    using e3 m3 by (simp add: create_enemy_path_def)
  have greedy: "map_sum id (\<lambda>(ds, r'', g). (ds, g)) (patrol_extend 10 maze width height dirs r [p] p {p})
       = Inr (dirs', [p] @ ext)"
    by (simp add: pe)
  show ?thesis
  proof (cases "length ([p] @ ext) < 3")
    case short: True
    show ?thesis
    proof (cases ?f)
      case Nil
      then have nex: "\<not> ?ex" using sd by (auto simp: filter_empty_conv)
      let ?en' = "en\<lparr>e_path := [p]\<rparr>"
      have res: "create_patrol_path en dirs r maze width height = Inr (?en', dirs', r')"
        using assms(3) pe short fb Nil
        by (simp add: create_patrol_path_def del: patrol_next.simps patrol_extend.simps)
      have mv: "\<exists>en''. enemy_move ?en' = Inr en'' \<and> (length (e_path ?en') < 2 \<longrightarrow> en'' = ?en')"
        by (rule enemy_move_total) simp
      have nb: "nbrs dirs' maze width height p = []" using Nil by (simp add: nbrs_def)
      show ?thesis using res greedy ok' nex short mv main3
        by (rule_tac exI[of _ ?en'], rule_tac exI[of _ dirs'], rule_tac exI[of _ r'],
            rule_tac exI[of _ "[p] @ ext"]) (simp add: nb)
    next
      case (Cons c cs)
      then have "c \<in> set ?f" by simp
      then obtain d where d: "d \<in> set DIRECTIONS" "c = ?nb d" "is_path maze width height c"
        using sd by auto
      then have ex: ?ex by auto
      let ?en' = "en\<lparr>e_path := [p, c]\<rparr>"
      have res: "create_patrol_path en dirs r maze width height = Inr (?en', dirs', r')"
        using assms(3) pe short fb Cons
        by (simp add: create_patrol_path_def del: patrol_next.simps patrol_extend.simps)
      have mv: "\<exists>en''. enemy_move ?en' = Inr en'' \<and> (length (e_path ?en') < 2 \<longrightarrow> en'' = ?en')"
        by (rule enemy_move_total) simp
      have sec: "\<exists>d\<in>set DIRECTIONS. e_path ?en' ! 1 = ?nb d \<and> is_path maze width height (e_path ?en' ! 1)"
        using d by auto
      have nb: "nbrs dirs' maze width height p = c # cs" using Cons by (simp add: nbrs_def)
      show ?thesis using res greedy ok' ex short mv main3 sec
        by (rule_tac exI[of _ ?en'], rule_tac exI[of _ dirs'], rule_tac exI[of _ r'],
            rule_tac exI[of _ "[p] @ ext"]) (simp add: nb)
    qed
  next
    case long: False
    let ?en' = "en\<lparr>e_path := [p] @ ext\<rparr>"
    have res: "create_patrol_path en dirs r maze width height = Inr (?en', dirs', r')"
      using assms(3) pe long
      by (simp add: create_patrol_path_def del: patrol_next.simps patrol_extend.simps)
    have mv: "\<exists>en''. enemy_move ?en' = Inr en'' \<and> (length (e_path ?en') < 2 \<longrightarrow> en'' = ?en')"
      by (rule enemy_move_total) simp
    have l2: "2 \<le> length (e_path ?en')" using long by simp
    have "ext \<noteq> []" using long by auto
    then obtain c cs where ec: "ext = c # cs" by (cases ext) auto
    have sec: "\<exists>d\<in>set DIRECTIONS. e_path ?en' ! 1 = ?nb d \<and> is_path maze width height (e_path ?en' ! 1)"
      using hd_ext ec sd by auto
    then obtain d0 where d0: "d0 \<in> set DIRECTIONS" "e_path ?en' ! 1 = ?nb d0"
      "is_path maze width height (e_path ?en' ! 1)" by blast
    then have "is_path maze width height (?nb d0)" by simp
    with d0(1) have ex: ?ex by (rule_tac bexI[of _ d0])
    show ?thesis using res greedy ok' ex long mv main3 sec l2
      by (rule_tac exI[of _ ?en'], rule_tac exI[of _ dirs'], rule_tac exI[of _ r'],
            rule_tac exI[of _ "[p] @ ext"]) simp
  qed
qed

text \<open>
  The theorem at a corridor: from the middle cell the greedy extension walks right and
  stops after two cells, while the fallback takes the left neighbour, which comes first
  in the direction list as the last shuffle left it.
\<close>

theorem create_patrol_path_cells_witness:
  "rect_maze [[1,1,1],[0,0,0],[1,1,1]] 3 3 \<and> directions_ok DIRECTIONS \<and>
   e_pos \<lparr>e_pos = Some (1,1), e_path = [], e_move_counter = 0, e_initial_pos = Some (1,1)\<rparr> = Some (1,1) \<and>
   (\<exists>en' r'.
     create_patrol_path \<lparr>e_pos = Some (1,1), e_path = [], e_move_counter = 0, e_initial_pos = Some (1,1)\<rparr>
        DIRECTIONS (\<lambda>n. 0) [[1,1,1],[0,0,0],[1,1,1]] 3 3
       = Inr (en', [(0, -1), (-1, 0), (0, 1), (1, 0)], r') \<and>
     map_sum id (\<lambda>(ds, r'', g). (ds, g))
        (patrol_extend 10 [[1,1,1],[0,0,0],[1,1,1]] 3 3 DIRECTIONS (\<lambda>n. 0) [(1,1)] (1,1) {(1,1)})
       = Inr ([(0, -1), (-1, 0), (0, 1), (1, 0)], [(1, 1), (2, 1)]) \<and>
     e_path en' = [(1, 1), (0, 1)] \<and>
     (\<exists>en''. enemy_move en' = Inr en''))"
proof -
  let ?m = "[[1,1,1],[0,0,0],[1,1,1::int]]"
  let ?en = "\<lparr>e_pos = Some (1,1), e_path = [], e_move_counter = 0, e_initial_pos = Some (1,1)\<rparr>"
  have h1: "rect_maze ?m 3 3" by (simp add: rect_maze_def)
  have h2: "directions_ok DIRECTIONS" by (simp add: directions_ok_def)
  have h3: "e_pos ?en = Some (1,1)" by simp
  have g: "map_sum id (\<lambda>(ds, r'', g). (ds, g))
        (patrol_extend 10 ?m 3 3 DIRECTIONS (\<lambda>n. 0) [(1,1)] (1,1) {(1,1)})
       = Inr ([(0, -1), (-1, 0), (0, 1), (1, 0)], [(1, 1), (2, 1)])"
    by code_simp
  have n: "nbrs [(0, -1), (-1, 0), (0, 1), (1, 0)] ?m 3 3 (1, 1) = [(0, 1), (2, 1)]"
    by code_simp
  from create_patrol_path_cells[OF h1 h2 h3, of "\<lambda>n. 0" "[]" "(1,1)" 0]
  obtain en' dirs' r' greedy where
    c: "create_patrol_path ?en DIRECTIONS (\<lambda>n. 0) ?m 3 3 = Inr (en', dirs', r')"
    and e: "map_sum id (\<lambda>(ds, r'', g). (ds, g))
        (patrol_extend 10 ?m 3 3 DIRECTIONS (\<lambda>n. 0) [(1,1)] (1,1) {(1,1)}) = Inr (dirs', greedy)"
    and p: "e_path en' = (if length greedy < 3 then (1, 1) # take 1 (nbrs dirs' ?m 3 3 (1, 1))
                   else greedy)"
    and m: "\<exists>en''. enemy_move en' = Inr en'' \<and> (length (e_path en') < 2 \<longrightarrow> en'' = en')"
    by blast
  from e g have dg: "dirs' = [(0, -1), (-1, 0), (0, 1), (1, 0)]" "greedy = [(1, 1), (2, 1)]"
    by simp_all
  have "e_path en' = [(1, 1), (0, 1)]" using p dg n by simp
  then show ?thesis using h1 h2 c dg g m by auto
qed

text \<open>
  The claim as stated fails: a spawn cell with no open neighbour gets a patrol path of
  one cell, not two.
\<close>

theorem create_patrol_path_single_cell:
  "map_sum id (\<lambda>(en', dirs', r'). e_path en')
     (create_patrol_path \<lparr>e_pos = Some (1,1), e_path = [], e_move_counter = 0, e_initial_pos = Some (1,1)\<rparr>
        DIRECTIONS (\<lambda>n. 0) [[1,1,1],[1,0,1],[1,1,1]] 3 3) = Inr [(1,1)]"
proof -
  have a: "map_sum id (\<lambda>(dirs', r', p). (dirs', p)) (patrol_extend 10 [[1,1,1],[1,0,1],[1,1,1]] 3 3 DIRECTIONS (\<lambda>n. 0) [(1,1)] (1,1) {(1,1)}) = Inr ([(1, 0), (0, -1), (-1, 0), (0,1)], [(1,1)])"
    by code_simp
  then obtain r' where b: "patrol_extend 10 [[1,1,1],[1,0,1],[1,1,1]] 3 3 DIRECTIONS (\<lambda>n. 0) [(1,1)] (1,1) {(1,1)} = Inr ([(1, 0), (0, -1), (-1, 0), (0,1)], r', [(1,1)])"
    by (cases "patrol_extend 10 [[1,1,1],[1,0,1],[1,1,1]] 3 3 DIRECTIONS (\<lambda>n. 0) [(1,1)] (1,1) {(1,1)}") auto
  have c: "patrol_next [[1,1,1],[1,0,1],[1,1,1]] 3 3 (1,1) {} [(1, 0), (0, -1), (-1, 0), (0,1)] = Inr None"
    by code_simp
  show ?thesis by (simp add: create_patrol_path_def b c del: patrol_next.simps patrol_extend.simps)
qed


section \<open>Properties of \<open>find_path\<close>\<close>

lemma open_neighbours_rect:
  assumes "rect_maze maze width height"
  shows "open_neighbours dirs maze width height c = Inr (nbrs dirs maze width height c)"
  by (induction dirs) (auto simp: nbrs_def cell_open_rect_is_path[OF assms] Let_def)

lemma bfs_loop_total:
  assumes "rect_maze maze width height"
  shows "\<exists>res. bfs_loop dirs maze width height goal queue visited n = Inr res"
  using assms
proof (induction dirs maze width height goal queue visited n rule: bfs_loop.induct)
  case (1 dirs maze width height goal queue visited nodes_explored)
  note rect = "1.prems"
  show ?case
  proof (cases queue)
    case Nil
    then show ?thesis by (simp add: bfs_loop.simps)
  next
    case (Cons entry rest)
    obtain c path where e: "entry = (c, path)" by (cases entry)
    show ?thesis
    proof (cases "c = goal")
      case True
      then show ?thesis using Cons e by (simp add: bfs_loop.simps)
    next
      case False
      obtain visited' queue' where ex:
        "bfs_expand (nbrs dirs maze width height c) path visited rest = (visited', queue')"
        by (cases "bfs_expand (nbrs dirs maze width height c) path visited rest")
      from "1.IH"[OF Cons e[symmetric] False open_neighbours_rect[OF rect] ex[symmetric] rect]
      obtain res where "bfs_loop dirs maze width height goal queue' visited' (nodes_explored + 1) = Inr res"
        by blast
      then show ?thesis using Cons e False ex open_neighbours_rect[OF rect]
        by (subst bfs_loop.simps) simp
    qed
  qed
qed

lemma rect_maze_dims:
  "rect_maze maze width height \<Longrightarrow> maze \<noteq> [] \<Longrightarrow> maze_width maze = width \<and> maze_height maze = height"
  by (cases maze) (auto simp: rect_maze_def maze_width_def maze_height_def)

text \<open>
  C7. For an algorithm name that is none of the six, \<open>find_path\<close> returns exactly what
  it returns for \<open>BFS\<close>, namely the result of \<open>_bfs\<close>; on a rectangular maze this is
  a result, not an exception.
\<close>

theorem find_path_unknown_is_bfs:
  assumes "algorithm \<notin> {''BFS'', ''UCS'', ''DFS'', ''DLS'', ''IDS'', ''Bidirectional''}"
  shows "find_path dirs r start goal algorithm maze = find_path dirs r start goal ''BFS'' maze
       \<and> find_path dirs r start goal algorithm maze
           = keep_rng r (bfs dirs start goal maze (maze_width maze) (maze_height maze))
       \<and> (rect_maze maze (maze_width maze) (maze_height maze) \<longrightarrow>
            (\<exists>result nodes_explored.
               find_path dirs r start goal algorithm maze = Inr (result, nodes_explored, r)))"
proof -
  have eq: "find_path dirs r start goal algorithm maze
           = keep_rng r (bfs dirs start goal maze (maze_width maze) (maze_height maze))"
    using assms by (simp add: find_path_def Let_def)
  have eq2: "find_path dirs r start goal ''BFS'' maze
           = keep_rng r (bfs dirs start goal maze (maze_width maze) (maze_height maze))"
    by (simp add: find_path_def Let_def)
  have "\<exists>result nodes_explored.
               find_path dirs r start goal algorithm maze = Inr (result, nodes_explored, r)"
    if rect: "rect_maze maze (maze_width maze) (maze_height maze)"
  proof -
    from bfs_loop_total[OF rect] obtain res where
      "bfs dirs start goal maze (maze_width maze) (maze_height maze) = Inr res"
      unfolding bfs_def by blast
    then show ?thesis unfolding eq by (cases res) (simp add: keep_rng_def)
  qed
  then show ?thesis using eq eq2 by simp
qed

theorem find_path_unknown_is_bfs_witness:
  "''AStar'' \<notin> {''BFS'', ''UCS'', ''DFS'', ''DLS'', ''IDS'', ''Bidirectional''}
   \<and> find_path DIRECTIONS (\<lambda>n. 0) (0, 0) (1, 0) ''AStar'' [[0, 0]]
       = find_path DIRECTIONS (\<lambda>n. 0) (0, 0) (1, 0) ''BFS'' [[0, 0]]
   \<and> rect_maze [[0, 0]] (maze_width [[0, 0]]) (maze_height [[0, 0]])
   \<and> (\<exists>result nodes_explored.
        find_path DIRECTIONS (\<lambda>n. 0) (0, 0) (1, 0) ''AStar'' [[0, 0]]
          = Inr (result, nodes_explored, \<lambda>n. 0))"
proof -
  have h: "''AStar'' \<notin> {''BFS'', ''UCS'', ''DFS'', ''DLS'', ''IDS'', ''Bidirectional''}" by simp
  have r: "rect_maze [[0, 0]] (maze_width [[0, 0]]) (maze_height [[0, 0]])"
    by (simp add: rect_maze_def maze_width_def maze_height_def)
  from find_path_unknown_is_bfs[OF h, of DIRECTIONS "\<lambda>n. 0" "(0, 0)" "(1, 0)" "[[0, 0]]"] r h
  show ?thesis by blast
qed

text \<open>
  C8. When start and goal are the same cell, \<open>find_path\<close> returns the one-cell path
  \<open>[start]\<close> with \<open>nodes_explored = 1\<close>, for each of the six strategies and for any
  other algorithm name, on every maze, and draws nothing from the random source.
\<close>

theorem find_path_same_cell:
  "find_path dirs r start start algorithm maze = Inr (Some [start], 1, r)"
proof -
  have b: "bfs dirs start start maze w h = Inr (Some [start], 1)" for w h
    by (simp add: bfs_def bfs_loop.simps)
  have u: "ucs dirs start start maze w h = Inr (Some [start], 1)" for w h
    by (simp add: ucs_def ucs_loop.simps)
  have d: "dfs dirs r start start maze w h = Inr (Some [start], 1, r)" for w h
    by (simp add: dfs_def dfs_loop.simps)
  have l: "dls dirs start start maze w h 50 = Inr (Some [start], 1)" for w h
    by (simp add: dls_def)
  have l0: "dls dirs start start maze w h 0 = Inr (Some [start], 1)" for w h
    by (simp add: dls_def)
  have "[0..100 - 1] = 0 # [1..(99::int)]" by (simp add: upto_rec1)
  then have i: "ids dirs start start maze w h 100 = Inr (Some [start], 1)" for w h
    by (simp add: ids_def l0 truthy_def)
  have bi: "bidirectional dirs start start maze w h = Inr (Some [start], 1)" for w h
    by (simp add: bidirectional_def)
  show ?thesis
    by (simp add: find_path_def Let_def b u d l i bi keep_rng_def)
qed


section \<open>Properties of the maze generator\<close>


lemma maze_get_rect:
  assumes "rect_maze maze w h" "0 \<le> x" "x < w" "0 \<le> y" "y < h"
  shows "maze_get maze x y = Inr (maze ! nat y ! nat x)"
proof -
  have y: "nat y < length maze" using assms by (auto simp: rect_maze_def)
  then have "int (length (maze ! nat y)) = w" using assms by (auto simp: rect_maze_def list_all_length)
  then show ?thesis using assms y by (simp add: maze_get_def py_index_in rect_maze_def)
qed


lemma py_assign_in: "0 \<le> i \<Longrightarrow> i < int (length xs) \<Longrightarrow> py_assign xs i v = Inr (xs[nat i := v])"
  by (simp add: py_assign_def)

lemma maze_set_rect:
  assumes "rect_maze maze w h" "0 \<le> x" "x < w" "0 \<le> y" "y < h"
  shows "maze_set maze x y 0 = Inr (carve maze x y)"
proof -
  have y: "nat y < length maze" using assms by (auto simp: rect_maze_def)
  then have "int (length (maze ! nat y)) = w" using assms by (auto simp: rect_maze_def list_all_length)
  then show ?thesis using assms y
    by (simp add: maze_set_def py_index_in py_assign_in rect_maze_def carve_def)
qed

lemma rect_carve: "rect_maze maze w h \<Longrightarrow> rect_maze (carve maze x y) w h"
  by (cases "nat y < length maze")
     (auto simp: rect_maze_def carve_def list_all_length nth_list_update split: if_splits)

lemma is_path_rect:
  assumes "rect_maze maze w h"
  shows "is_path maze w h (x, y) \<longleftrightarrow> 0 \<le> x \<and> x < w \<and> 0 \<le> y \<and> y < h \<and> maze ! nat y ! nat x = 0"
  by (simp add: is_path_def cell_open_rect[OF assms])

lemma is_path_carve:
  assumes "rect_maze maze w h" "0 \<le> x" "x < w" "0 \<le> y" "y < h"
  shows "is_path (carve maze x y) w h c \<longleftrightarrow> c = (x, y) \<or> is_path maze w h c"
proof -
  obtain a b where c: "c = (a, b)" by (cases c)
  have y: "nat y < length maze" using assms by (auto simp: rect_maze_def)
  then have x: "nat x < length (maze ! nat y)" using assms by (auto simp: rect_maze_def list_all_length)
  show ?thesis unfolding c is_path_rect[OF assms(1)] is_path_rect[OF rect_carve[OF assms(1)]]
    using assms x y by (auto simp: carve_def nth_list_update)
qed

lemma carve_same: 
  assumes "rect_maze maze w h" "is_path maze w h (x, y)"
  shows "carve maze x y = maze"
proof -
  from assms have b: "0 \<le> x" "x < w" "0 \<le> y" "y < h" and v: "maze ! nat y ! nat x = 0"
    by (simp_all add: is_path_rect)
  have y: "nat y < length maze" using assms b by (auto simp: rect_maze_def)
  have "(maze ! nat y)[nat x := 0] = maze ! nat y"
    using v by (metis list_update_id)
  then show ?thesis by (simp add: carve_def)
qed

lemma reachable_refl: "reachable maze w h s s"
  unfolding reachable_def route_def walk_def by (rule exI[of _ "[s]"]) simp

lemma walk_snoc:
  "walk maze w h p \<Longrightarrow> unit_step (last p) c \<Longrightarrow> is_path maze w h c \<Longrightarrow> walk maze w h (p @ [c])"
  by (auto simp: walk_def successively_append_iff)

lemma reachable_step:
  assumes "reachable maze w h s c" "unit_step c c'" "is_path maze w h c'"
  shows "reachable maze w h s c'"
proof -
  from assms(1) obtain p where p: "walk maze w h p" "hd p = s" "last p = c"
    by (auto simp: reachable_def route_def)
  then have "walk maze w h (p @ [c'])" using assms walk_snoc by simp
  moreover have "hd (p @ [c']) = s" using p by (auto simp: walk_def)
  ultimately show ?thesis unfolding reachable_def route_def by (intro exI[of _ "p @ [c']"]) simp
qed

lemma reachable_mono:
  assumes "\<And>c. is_path maze w h c \<Longrightarrow> is_path maze' w h c" "reachable maze w h s t"
  shows "reachable maze' w h s t"
proof -
  from assms(2) obtain p where p: "walk maze w h p" "hd p = s" "last p = t"
    by (auto simp: reachable_def route_def)
  then have "walk maze' w h p" using assms(1) by (auto simp: walk_def list_all_iff)
  then show ?thesis using p unfolding reachable_def route_def by blast
qed


lemma maze_get_carve:
  assumes "rect_maze maze w h" "0 \<le> x" "x < w" "0 \<le> y" "y < h" "0 \<le> a" "a < w" "0 \<le> b" "b < h"
  shows "maze_get (carve maze x y) a b = (if (a, b) = (x, y) then Inr 0 else maze_get maze a b)"
proof -
  have y: "nat y < length maze" using assms by (auto simp: rect_maze_def)
  then have x: "nat x < length (maze ! nat y)" using assms by (auto simp: rect_maze_def list_all_length)
  show ?thesis
    unfolding maze_get_rect[OF rect_carve[OF assms(1)] assms(6-9)] maze_get_rect[OF assms(1) assms(6-9)]
    using assms x y by (auto simp: carve_def nth_list_update)
qed

lemma only_carved_refl: "only_carved maze maze w h"
  by (simp add: only_carved_def)

lemma only_carved_trans:
  "only_carved m1 m2 w h \<Longrightarrow> only_carved m2 m3 w h \<Longrightarrow> only_carved m1 m3 w h"
  unfolding only_carved_def by (metis Inr_inject zero_neq_one)

lemma only_carved_carve:
  assumes "rect_maze maze w h" "0 \<le> x" "x < w" "0 \<le> y" "y < h" "maze_get maze x y = Inr 1"
  shows "only_carved maze (carve maze x y) w h"
  unfolding only_carved_def using assms by (auto simp: maze_get_carve)

lemma only_carved_is_path:
  assumes "rect_maze maze w h" "rect_maze maze' w h" "only_carved maze maze' w h" "is_path maze w h c"
  shows "is_path maze' w h c"
proof -
  obtain x y where c: "c = (x, y)" by (cases c)
  from assms(4) have b: "0 \<le> x" "x < w" "0 \<le> y" "y < h" and v: "maze ! nat y ! nat x = 0"
    unfolding c by (simp_all add: is_path_rect[OF assms(1)])
  then have "maze_get maze x y = Inr 0" by (simp add: maze_get_rect[OF assms(1)])
  then have "maze_get maze' x y = Inr 0" using assms(3) b unfolding only_carved_def by fastforce
  then show ?thesis unfolding c using b by (simp add: is_path_rect[OF assms(2)] maze_get_rect[OF assms(2)])
qed

lemma break_wall_props:
  assumes "rect_maze maze w h"
  shows "\<exists>maze' r'. break_wall maze w h c ds r = Inr (maze', r') \<and>
      (maze' = maze \<or>
       (\<exists>d\<in>set ds. 0 < fst c + fst d \<and> fst c + fst d < w - 1 \<and> 0 < snd c + snd d
           \<and> snd c + snd d < h - 1
           \<and> maze_get maze (fst c + fst d) (snd c + snd d) = Inr 1
           \<and> maze' = carve maze (fst c + fst d) (snd c + snd d)))"
proof (induction ds arbitrary: r)
  case Nil
  show ?case by simp
next
  case (Cons d ds)
  let ?nx = "fst c + fst d" and ?ny = "snd c + snd d"
  show ?case
  proof (cases "0 < ?nx \<and> ?nx < w - 1 \<and> 0 < ?ny \<and> ?ny < h - 1")
    case False
    then show ?thesis using Cons.IH[of r] by (auto simp: Let_def)
  next
    case inside: True
    then have g: "maze_get maze ?nx ?ny = Inr (maze ! nat ?ny ! nat ?nx)"
      by (intro maze_get_rect[OF assms]) auto
    show ?thesis
    proof (cases "maze ! nat ?ny ! nat ?nx = 1")
      case False
      then show ?thesis using inside g Cons.IH[of r] by (auto simp: Let_def)
    next
      case wall: True
      show ?thesis
      proof (cases "r 0 mod 10 < 3")
        case True
        have "maze_set maze ?nx ?ny 0 = Inr (carve maze ?nx ?ny)"
          using inside by (intro maze_set_rect[OF assms]) auto
        then show ?thesis using inside g wall True
          by (auto simp: Let_def random_below_03_def)
      next
        case False
        then show ?thesis using inside g wall Cons.IH[of "rng_tail r"]
          by (auto simp: Let_def random_below_03_def)
      qed
    qed
  qed
qed

lemma randrange_odd_props:
  assumes "3 \<le> w"
  shows "\<exists>x r'. randrange_odd r (w - 1) = Inr (x, r') \<and> odd x \<and> 0 < x \<and> x < w - 1"
proof -
  let ?n = "(w - 1) div 2"
  have n: "?n \<ge> 1" using assms by simp
  have "r 0 mod nat ?n < nat ?n" using n by (intro mod_less_divisor) simp
  then have "int (r 0 mod nat ?n) < ?n" using n by linarith
  then have "1 + 2 * int (r 0 mod nat ?n) < w - 1" by linarith
  then show ?thesis using n by (simp add: randrange_odd_def Let_def)
qed

lemma unit_step_dirs:
  "directions_ok dirs \<Longrightarrow> d \<in> set dirs \<Longrightarrow> unit_step c (fst c + fst d, snd c + snd d)"
  by (auto simp: directions_ok_set DIRECTIONS_def unit_step_def)

lemma connected_carve:
  assumes rect: "rect_maze maze w h" and conn: "connected_maze maze w h"
    and b: "0 \<le> x" "x < w" "0 \<le> y" "y < h"
    and adj: "is_path maze w h c" "unit_step c (x, y)"
  shows "connected_maze (carve maze x y) w h"
  unfolding connected_maze_def
proof (intro allI impI)
  fix c' assume p: "is_path (carve maze x y) w h c'"
  have mono: "\<And>a. is_path maze w h a \<Longrightarrow> is_path (carve maze x y) w h a"
    using is_path_carve[OF rect b] by simp
  show "reachable (carve maze x y) w h (1, 1) c'"
  proof (cases "is_path maze w h c'")
    case True
    then have "reachable maze w h (1, 1) c'" using conn unfolding connected_maze_def by blast
    then show ?thesis using mono reachable_mono by blast
  next
    case False
    then have c': "c' = (x, y)" using p is_path_carve[OF rect b] by simp
    have "reachable maze w h (1, 1) c" using conn adj(1) unfolding connected_maze_def by blast
    then have "reachable (carve maze x y) w h (1, 1) c" using mono reachable_mono by blast
    then show ?thesis using reachable_step adj(2) p c' by blast
  qed
qed

lemma add_loops_props:
  assumes "rect_maze maze w h" "3 \<le> w" "3 \<le> h"
  shows "\<exists>maze' r'. add_loops n w h dirs maze r = Inr (maze', r') \<and> rect_maze maze' w h
      \<and> only_carved maze maze' w h
      \<and> (directions_ok dirs \<and> connected_maze maze w h \<longrightarrow> connected_maze maze' w h)"
  using assms(1)
proof (induction n arbitrary: maze r)
  case 0
  then show ?case by (simp add: only_carved_refl)
next
  case (Suc n)
  note rect = Suc.prems
  from randrange_odd_props[OF assms(2), of r] obtain x r1 where
    x: "randrange_odd r (w - 1) = Inr (x, r1)" "0 < x" "x < w - 1" by blast
  from randrange_odd_props[OF assms(3), of r1] obtain y r2 where
    y: "randrange_odd r1 (h - 1) = Inr (y, r2)" "0 < y" "y < h - 1" by blast
  have g: "maze_get maze x y = Inr (maze ! nat y ! nat x)"
    using x y by (intro maze_get_rect[OF rect]) auto
  show ?case
  proof (cases "maze ! nat y ! nat x = 0")
    case False
    from Suc.IH[OF rect, of r2] show ?thesis using x y g False by auto
  next
    case True
    then have px: "is_path maze w h (x, y)" using x y by (simp add: is_path_rect[OF rect])
    from break_wall_props[OF rect, of "(x, y)" dirs r2] obtain maze1 r3 where
      bw: "break_wall maze w h (x, y) dirs r2 = Inr (maze1, r3)"
      and alt: "maze1 = maze \<or>
       (\<exists>d\<in>set dirs. 0 < x + fst d \<and> x + fst d < w - 1 \<and> 0 < y + snd d
           \<and> y + snd d < h - 1
           \<and> maze_get maze (x + fst d) (y + snd d) = Inr 1
           \<and> maze1 = carve maze (x + fst d) (y + snd d))"
      by auto
    have r1: "rect_maze maze1 w h" using alt rect rect_carve by auto
    have oc: "only_carved maze maze1 w h"
      using alt
    proof
      assume "maze1 = maze" then show ?thesis by (simp add: only_carved_refl)
    next
      assume "\<exists>d\<in>set dirs. 0 < x + fst d \<and> x + fst d < w - 1 \<and> 0 < y + snd d
           \<and> y + snd d < h - 1
           \<and> maze_get maze (x + fst d) (y + snd d) = Inr 1
           \<and> maze1 = carve maze (x + fst d) (y + snd d)"
      then obtain d where d: "0 < x + fst d" "x + fst d < w - 1" "0 < y + snd d" "y + snd d < h - 1"
        "maze_get maze (x + fst d) (y + snd d) = Inr 1" "maze1 = carve maze (x + fst d) (y + snd d)"
        by blast
      show ?thesis unfolding d(6) using d(1-5) by (intro only_carved_carve[OF rect]) auto
    qed
    have cn: "connected_maze maze1 w h" if ok: "directions_ok dirs" and conn: "connected_maze maze w h"
      using alt
    proof
      assume "maze1 = maze" then show ?thesis using conn by simp
    next
      assume "\<exists>d\<in>set dirs. 0 < x + fst d \<and> x + fst d < w - 1 \<and> 0 < y + snd d
           \<and> y + snd d < h - 1
           \<and> maze_get maze (x + fst d) (y + snd d) = Inr 1
           \<and> maze1 = carve maze (x + fst d) (y + snd d)"
      then obtain d where d: "d \<in> set dirs" "0 < x + fst d" "x + fst d < w - 1" "0 < y + snd d" "y + snd d < h - 1"
        "maze1 = carve maze (x + fst d) (y + snd d)"
        by blast
      have "unit_step (x, y) (x + fst d, y + snd d)" using unit_step_dirs[OF ok d(1), of "(x, y)"] by simp
      then show ?thesis unfolding d(6) using d(2-5) px
        by (intro connected_carve[OF rect conn, where c = "(x, y)"]) auto
    qed
    from Suc.IH[OF r1, of r3] obtain maze' r' where
      rec: "add_loops n w h dirs maze1 r3 = Inr (maze', r')" "rect_maze maze' w h"
        "only_carved maze1 maze' w h"
        "directions_ok dirs \<and> connected_maze maze1 w h \<longrightarrow> connected_maze maze' w h"
      by blast
    have "add_loops (Suc n) w h dirs maze r = Inr (maze', r')"
      using x y g True bw rec(1) by simp
    then show ?thesis using rec only_carved_trans[OF oc rec(3)] cn by blast
  qed
qed

text \<open>
  C6. On a rectangular maze of width and height at least three, the loop injection
  returns a maze that differs from the one it was given only in cells that were wall
  and are now path: no path cell becomes wall again. Hence every path cell stays a
  path cell and every cell reachable from a cell before, in particular from \<open>(1, 1)\<close>,
  is still reachable from it afterwards.
\<close>

theorem add_loops_only_carves:
  assumes "rect_maze maze width height" and "3 \<le> width" and "3 \<le> height"
  shows "\<exists>maze' r'. add_loops n width height dirs maze r = Inr (maze', r')
      \<and> rect_maze maze' width height
      \<and> only_carved maze maze' width height
      \<and> (\<forall>c. is_path maze width height c \<longrightarrow> is_path maze' width height c)
      \<and> (\<forall>s c. reachable maze width height s c \<longrightarrow> reachable maze' width height s c)"
proof -
  from add_loops_props[OF assms, of n dirs r] obtain maze' r' where
    a: "add_loops n width height dirs maze r = Inr (maze', r')" "rect_maze maze' width height"
      "only_carved maze maze' width height" by blast
  have mono: "\<And>c. is_path maze width height c \<Longrightarrow> is_path maze' width height c"
    using only_carved_is_path[OF assms(1) a(2) a(3)] .
  then have "\<forall>s c. reachable maze width height s c \<longrightarrow> reachable maze' width height s c"
    using reachable_mono by blast
  then show ?thesis using a mono by blast
qed



lemma carve_neighbors_rect:
  assumes "rect_maze maze w h"
  shows "\<exists>ns. carve_neighbors maze w h c ds = Inr ns \<and>
      (ns = [] \<longrightarrow> (\<forall>d\<in>set ds. 0 < fst c + fst d \<and> fst c + fst d < w - 1
          \<and> 0 < snd c + snd d \<and> snd c + snd d < h - 1
          \<longrightarrow> maze_get maze (fst c + fst d) (snd c + snd d) \<noteq> Inr 1))"
proof (induction ds)
  case Nil
  show ?case by simp
next
  case (Cons d ds)
  let ?nx = "fst c + fst d" and ?ny = "snd c + snd d"
  from Cons.IH obtain ns where ns: "carve_neighbors maze w h c ds = Inr ns"
    "ns = [] \<longrightarrow> (\<forall>d\<in>set ds. 0 < fst c + fst d \<and> fst c + fst d < w - 1
          \<and> 0 < snd c + snd d \<and> snd c + snd d < h - 1
          \<longrightarrow> maze_get maze (fst c + fst d) (snd c + snd d) \<noteq> Inr 1)" by blast
  show ?case
  proof (cases "0 < ?nx \<and> ?nx < w - 1 \<and> 0 < ?ny \<and> ?ny < h - 1")
    case False
    then show ?thesis using ns by (auto simp: Let_def)
  next
    case True
    then have g: "maze_get maze ?nx ?ny = Inr (maze ! nat ?ny ! nat ?nx)"
      by (intro maze_get_rect[OF assms]) auto
    show ?thesis using True g ns by (auto simp: Let_def)
  qed
qed

lemma binary_carve:
  assumes "rect_maze maze w h" "binary_maze maze w h" "0 \<le> x" "x < w" "0 \<le> y" "y < h"
  shows "binary_maze (carve maze x y) w h"
  using assms(2) unfolding binary_maze_def
  by (auto simp: maze_get_carve[OF assms(1) assms(3-6)])

lemma is_path_get:
  assumes "rect_maze maze w h" "0 \<le> x" "x < w" "0 \<le> y" "y < h"
  shows "is_path maze w h (x, y) \<longleftrightarrow> maze_get maze x y = Inr 0"
  using assms by (simp add: is_path_rect[OF assms(1)] maze_get_rect[OF assms(1)])

lemma lattice_step_cases:
  "d \<in> set lattice_steps \<Longrightarrow> d = (0, 2) \<or> d = (2, 0) \<or> d = (0, -2) \<or> d = (-2, 0)"
  by (auto simp: lattice_steps_def)

lemma room_cell_step:
  assumes "room_cell w h c" "d \<in> set lattice_steps"
  shows "room_cell w h (fst c + fst d, snd c + snd d)
     \<longleftrightarrow> 0 < fst c + fst d \<and> fst c + fst d < w - 1 \<and> 0 < snd c + snd d \<and> snd c + snd d < h - 1"
  using assms lattice_step_cases[OF assms(2)] by (auto simp: room_cell_def)

lemma wall_between:
  assumes "room_cell w h (cx, cy)" "d \<in> set lattice_steps"
    "0 < cx + fst d" "cx + fst d < w - 1" "0 < cy + snd d" "cy + snd d < h - 1"
  shows "0 \<le> cx + fst d div 2" "cx + fst d div 2 < w" "0 \<le> cy + snd d div 2" "cy + snd d div 2 < h"
    "unit_step (cx, cy) (cx + fst d div 2, cy + snd d div 2)"
    "unit_step (cx + fst d div 2, cy + snd d div 2) (cx + fst d, cy + snd d)"
    "\<not> room_cell w h (cx + fst d div 2, cy + snd d div 2)"
  using assms lattice_step_cases[OF assms(2)] by (auto simp: room_cell_def unit_step_def)

lemma carve_loop_inv:
  assumes "carve_inv w h maze stack"
  shows "\<exists>maze' r'. carve_loop w h maze stack r = Inr (maze', r') \<and> carve_inv w h maze' []"
  using assms
proof (induction w h maze stack r rule: carve_loop.induct)
  case (1 w h maze stack r)
  note inv = "1.prems"
  then have rect: "rect_maze maze w h" and bin: "binary_maze maze w h"
    and start: "is_path maze w h (1, 1)" and conn: "connected_maze maze w h"
    and stk: "\<forall>c\<in>set stack. room_cell w h c \<and> is_path maze w h c"
    and closed: "\<forall>c. room_cell w h c \<and> is_path maze w h c \<and> c \<notin> set stack \<longrightarrow>
           (\<forall>d\<in>set lattice_steps. room_cell w h (fst c + fst d, snd c + snd d) \<longrightarrow>
              is_path maze w h (fst c + fst d, snd c + snd d))"
    unfolding carve_inv_def by blast+
  show ?case
  proof (cases stack)
    case Nil
    then show ?thesis using inv by (subst carve_loop.simps) simp
  next
    case (Cons top rest)
    obtain cx cy where top: "top = (cx, cy)" by (cases top)
    have room: "room_cell w h (cx, cy)" and ptop: "is_path maze w h (cx, cy)"
      using stk Cons top by auto
    from carve_neighbors_rect[OF rect, of "(cx, cy)" lattice_steps] obtain ns where
      ns: "carve_neighbors maze w h (cx, cy) lattice_steps = Inr ns"
      and empty: "ns = [] \<longrightarrow> (\<forall>d\<in>set lattice_steps. 0 < cx + fst d \<and> cx + fst d < w - 1
          \<and> 0 < cy + snd d \<and> cy + snd d < h - 1
          \<longrightarrow> maze_get maze (cx + fst d) (cy + snd d) \<noteq> Inr 1)"
      by auto
    show ?thesis
    proof (cases "ns = []")
      case True
      have "carve_inv w h maze rest"
        unfolding carve_inv_def
      proof (intro conjI allI impI ballI)
        show "rect_maze maze w h" "binary_maze maze w h" "is_path maze w h (1, 1)"
          "connected_maze maze w h" using rect bin start conn by auto
      next
        fix c assume "c \<in> set rest"
        then show "room_cell w h c" "is_path maze w h c" using stk Cons by auto
      next
        fix c d
        assume c: "room_cell w h c \<and> is_path maze w h c \<and> c \<notin> set rest"
          and d: "d \<in> set lattice_steps"
          and rm: "room_cell w h (fst c + fst d, snd c + snd d)"
        show "is_path maze w h (fst c + fst d, snd c + snd d)"
        proof (cases "c = (cx, cy)")
          case False
          then have "c \<notin> set stack" using c Cons top by auto
          then show ?thesis using closed c d rm by blast
        next
          case ctop: True
          have ins: "0 < cx + fst d \<and> cx + fst d < w - 1 \<and> 0 < cy + snd d \<and> cy + snd d < h - 1"
            using rm room_cell_step[OF room d] ctop by simp
          then have "maze_get maze (cx + fst d) (cy + snd d) \<noteq> Inr 1"
            using empty True d by blast
          moreover have "maze_get maze (cx + fst d) (cy + snd d) = Inr 0
              \<or> maze_get maze (cx + fst d) (cy + snd d) = Inr 1"
            using bin ins unfolding binary_maze_def by auto
          ultimately have "maze_get maze (cx + fst d) (cy + snd d) = Inr 0" by blast
          then show ?thesis using ins ctop by (simp add: is_path_get[OF rect])
        qed
      qed
      from "1.IH"(2)[OF Cons top[symmetric] ns _ this] True
      obtain maze' r' where "carve_loop w h maze rest r = Inr (maze', r')" "carve_inv w h maze' []"
        by auto
      then show ?thesis using Cons top ns True by (subst carve_loop.simps) simp
    next
      case False
      obtain nx ny wx wy r1 where ch: "choice r ns = ((nx, ny, wx, wy), r1)"
        by (metis prod_cases4 surj_pair)
      then have el: "(nx, ny, wx, wy) \<in> set ns" using choice_in_set[OF False, of r] by simp
      from carve_neighbors_elem[OF ns el] obtain d where d: "d \<in> set lattice_steps"
        and n: "nx = cx + fst d" "ny = cy + snd d" "wx = fst d div 2" "wy = snd d div 2"
        and ins: "0 < nx" "nx < w - 1" "0 < ny" "ny < h - 1"
        and g: "maze_get maze nx ny = Inr 1"
        by auto
      note wb = wall_between[OF room d ins[unfolded n]]
      let ?m1 = "carve maze (cx + wx) (cy + wy)"
      let ?m2 = "carve ?m1 nx ny"
      have wr: "0 \<le> cx + wx" "cx + wx < w" "0 \<le> cy + wy" "cy + wy < h"
        using wb(1-4) n by auto
      have nr: "0 \<le> nx" "nx < w" "0 \<le> ny" "ny < h" using ins by auto
      have r1: "rect_maze ?m1 w h" using rect rect_carve by blast
      have r2: "rect_maze ?m2 w h" using r1 rect_carve by blast
      have s1: "maze_set maze (cx + wx) (cy + wy) 0 = Inr ?m1"
        by (rule maze_set_rect[OF rect wr])
      have s2: "maze_set ?m1 nx ny 0 = Inr ?m2"
        by (rule maze_set_rect[OF r1 nr])
      have p1: "\<And>c. is_path ?m1 w h c \<longleftrightarrow> c = (cx + wx, cy + wy) \<or> is_path maze w h c"
        by (rule is_path_carve[OF rect wr])
      have p2: "\<And>c. is_path ?m2 w h c \<longleftrightarrow> c = (nx, ny) \<or> c = (cx + wx, cy + wy) \<or> is_path maze w h c"
        using is_path_carve[OF r1 nr] p1 by auto
      have c1: "connected_maze ?m1 w h"
        using wb(5) n by (intro connected_carve[OF rect conn wr ptop]) simp
      have c2: "connected_maze ?m2 w h"
        using wb(6) n p1 by (intro connected_carve[OF r1 c1 nr, where c = "(cx + wx, cy + wy)"]) auto
      have nroom: "room_cell w h (nx, ny)"
        using room_cell_step[OF room d] ins n by simp
      have inv2: "carve_inv w h ?m2 ((nx, ny) # stack)"
        unfolding carve_inv_def
      proof (intro conjI allI impI ballI)
        show "rect_maze ?m2 w h" by (rule r2)
        show "binary_maze ?m2 w h"
          by (intro binary_carve[OF r1 _ nr] binary_carve[OF rect bin wr])
        show "is_path ?m2 w h (1, 1)" using start p2 by simp
        show "connected_maze ?m2 w h" by (rule c2)
      next
        fix c assume "c \<in> set ((nx, ny) # stack)"
        then show "room_cell w h c" "is_path ?m2 w h c" using stk nroom p2 by auto
      next
        fix c d'
        assume c: "room_cell w h c \<and> is_path ?m2 w h c \<and> c \<notin> set ((nx, ny) # stack)"
          and d': "d' \<in> set lattice_steps"
          and rm: "room_cell w h (fst c + fst d', snd c + snd d')"
        have "c \<noteq> (cx + wx, cy + wy)" using c wb(7) n by auto
        then have "is_path maze w h c" "c \<notin> set stack" using c p2 by auto
        then have "is_path maze w h (fst c + fst d', snd c + snd d')"
          using closed c d' rm by blast
        then show "is_path ?m2 w h (fst c + fst d', snd c + snd d')" using p2 by simp
      qed
      from "1.IH"(1)[OF Cons top[symmetric] ns False ch[symmetric] refl refl refl s1 s2 inv2]
      obtain maze' r' where "carve_loop w h ?m2 ((nx, ny) # stack) r1 = Inr (maze', r')"
        "carve_inv w h maze' []" by auto
      then show ?thesis using Cons top ns False ch s1 s2 by (subst carve_loop.simps) simp
    qed
  qed
qed


lemma rect_initial: "0 \<le> w \<Longrightarrow> 0 \<le> h \<Longrightarrow> rect_maze (initial_maze w h) w h"
  by (simp add: rect_maze_def initial_maze_def list_all_length)

lemma maze_get_initial:
  assumes "0 \<le> x" "x < w" "0 \<le> y" "y < h"
  shows "maze_get (initial_maze w h) x y = Inr 1"
proof -
  have "rect_maze (initial_maze w h) w h" using assms by (intro rect_initial) auto
  from maze_get_rect[OF this assms] show ?thesis using assms by (simp add: initial_maze_def)
qed

lemma initial_inv:
  assumes "3 \<le> w" "3 \<le> h"
  shows "carve_inv w h (carve (initial_maze w h) 1 1) [(1, 1)]"
proof -
  let ?m0 = "initial_maze w h"
  have r0: "rect_maze ?m0 w h" using assms by (intro rect_initial) auto
  have b: "(0::int) \<le> 1" "1 < w" "(0::int) \<le> 1" "1 < h" using assms by auto
  have np: "\<not> is_path ?m0 w h c" for c
  proof -
    obtain x y where c: "c = (x, y)" by (cases c)
    show ?thesis unfolding c
    proof
      assume p: "is_path ?m0 w h (x, y)"
      then have bb: "0 \<le> x" "x < w" "0 \<le> y" "y < h" by (simp_all add: is_path_rect[OF r0])
      from p is_path_get[OF r0 bb] maze_get_initial[OF bb] show False by simp
    qed
  qed
  have p: "\<And>c. is_path (carve ?m0 1 1) w h c \<longleftrightarrow> c = (1, 1)"
    using is_path_carve[OF r0 b] np by simp
  have bin0: "binary_maze ?m0 w h" unfolding binary_maze_def using maze_get_initial by auto
  show ?thesis unfolding carve_inv_def
  proof (intro conjI allI impI ballI)
    show "rect_maze (carve ?m0 1 1) w h" using r0 rect_carve by blast
    show "binary_maze (carve ?m0 1 1) w h" by (rule binary_carve[OF r0 bin0 b])
    show "is_path (carve ?m0 1 1) w h (1, 1)" using p by simp
    show "connected_maze (carve ?m0 1 1) w h"
      unfolding connected_maze_def using p reachable_refl by auto
  next
    fix c :: cell assume "c \<in> set [(1, 1)]"
    then show "room_cell w h c" "is_path (carve ?m0 1 1) w h c"
      using p assms by (auto simp: room_cell_def)
  next
    fix c :: cell and d
    assume "room_cell w h c \<and> is_path (carve ?m0 1 1) w h c \<and> c \<notin> set [(1, 1)]"
    then have False using p by auto
    then show "is_path (carve ?m0 1 1) w h (fst c + fst d, snd c + snd d)" ..
  qed
qed

lemma spanning_tree_inv:
  assumes "3 \<le> w" "3 \<le> h"
  shows "\<exists>maze r'. spanning_tree w h r = Inr (maze, r') \<and> carve_inv w h maze []"
proof -
  have r0: "rect_maze (initial_maze w h) w h" using assms by (intro rect_initial) auto
  have s: "maze_set (initial_maze w h) 1 1 0 = Inr (carve (initial_maze w h) 1 1)"
    using assms by (intro maze_set_rect[OF r0]) auto
  from carve_loop_inv[OF initial_inv[OF assms], of r] show ?thesis
    by (simp add: spanning_tree_def s)
qed

lemma all_rooms_open:
  assumes inv: "carve_inv w h maze []" and room: "room_cell w h (x, y)"
  shows "is_path maze w h (x, y)"
  using room
proof (induction "nat x + nat y" arbitrary: x y rule: less_induct)
  case less
  note rm = less.prems
  from inv have start: "is_path maze w h (1, 1)"
    and closed: "\<And>c d. room_cell w h c \<Longrightarrow> is_path maze w h c \<Longrightarrow> d \<in> set lattice_steps \<Longrightarrow>
              room_cell w h (fst c + fst d, snd c + snd d) \<Longrightarrow>
              is_path maze w h (fst c + fst d, snd c + snd d)"
    unfolding carve_inv_def by auto
  show ?case
  proof (cases "x > 1")
    case True
    have odd: "odd x" using rm by (simp add: room_cell_def)
    then have x3: "x \<ge> 3" using True by presburger
    have r': "room_cell w h (x - 2, y)" using rm x3 by (auto simp: room_cell_def)
    have "nat (x - 2) + nat y < nat x + nat y" using x3 by linarith
    from less.hyps[OF this r'] have "is_path maze w h (x - 2, y)" .
    from closed[OF r' this, of "(2, 0)"] rm show ?thesis by (simp add: lattice_steps_def)
  next
    case x1: False
    then have x: "x = 1" using rm by (auto simp: room_cell_def)
    show ?thesis
    proof (cases "y > 1")
      case True
      have odd: "odd y" using rm by (simp add: room_cell_def)
      then have y3: "y \<ge> 3" using True by presburger
      have r': "room_cell w h (x, y - 2)" using rm y3 by (auto simp: room_cell_def)
      have "nat x + nat (y - 2) < nat x + nat y" using y3 by linarith
      from less.hyps[OF this r'] have "is_path maze w h (x, y - 2)" .
      from closed[OF r' this, of "(0, 2)"] rm show ?thesis by (simp add: lattice_steps_def)
    next
      case False
      then have "y = 1" using rm by (auto simp: room_cell_def)
      then show ?thesis using x start by simp
    qed
  qed
qed

lemma clear_start_end_same:
  assumes rect: "rect_maze maze w h" and "is_path maze w h (1, 1)" and "is_path maze w h (w - 2, h - 2)"
  shows "clear_start_end w h maze = Inr maze"
proof -
  from assms(2) have b1: "(0::int) \<le> 1" "1 < w" "(0::int) \<le> 1" "1 < h"
    by (simp_all add: is_path_rect[OF rect])
  from assms(3) have b2: "0 \<le> w - 2" "w - 2 < w" "0 \<le> h - 2" "h - 2 < h"
    by (simp_all add: is_path_rect[OF rect])
  have "maze_set maze 1 1 0 = Inr maze"
    using maze_set_rect[OF rect b1] carve_same[OF rect assms(2)] by simp
  moreover have "maze_set maze (w - 2) (h - 2) 0 = Inr maze"
    using maze_set_rect[OF rect b2] carve_same[OF rect assms(3)] by simp
  ultimately show ?thesis by (simp add: clear_start_end_def)
qed

text \<open>
  C1. For odd width and height of at least five, any arrangement of the four unit
  steps in \<open>GameConfig.DIRECTIONS\<close> and any random source, \<open>generate_maze\<close> returns a
  rectangular maze in which every path cell is reachable from \<open>(1, 1)\<close> through path
  cells, and every room cell (odd coordinates strictly inside the border) is a path
  cell and reachable from \<open>(1, 1)\<close>.
\<close>

theorem generate_maze_connected:
  assumes "odd width" and "odd height" and "5 \<le> width" and "5 \<le> height"
    and "directions_ok dirs"
  shows "\<exists>maze r'. generate_maze width height dirs r = Inr (maze, r')
      \<and> rect_maze maze width height
      \<and> (\<forall>c. is_path maze width height c \<longrightarrow> reachable maze width height (1, 1) c)
      \<and> (\<forall>c. room_cell width height c \<longrightarrow>
            is_path maze width height c \<and> reachable maze width height (1, 1) c)"
proof -
  have w3: "3 \<le> width" and h3: "3 \<le> height" using assms by auto
  from spanning_tree_inv[OF w3 h3, of r] obtain m1 r1 where
    st: "spanning_tree width height r = Inr (m1, r1)" and inv: "carve_inv width height m1 []"
    by blast
  from inv have rect1: "rect_maze m1 width height" and conn1: "connected_maze m1 width height"
    unfolding carve_inv_def by auto
  from add_loops_props[OF rect1 w3 h3, of "nat (width div 2)" dirs r1] obtain m2 r2 where
    al: "add_loops (nat (width div 2)) width height dirs m1 r1 = Inr (m2, r2)"
    and rect2: "rect_maze m2 width height" and oc: "only_carved m1 m2 width height"
    and conn2: "connected_maze m2 width height"
    using assms(5) conn1 by blast
  have rooms: "is_path m2 width height c" if "room_cell width height c" for c
  proof -
    obtain x y where c: "c = (x, y)" by (cases c)
    from all_rooms_open[OF inv that[unfolded c]] have "is_path m1 width height c" unfolding c .
    then show ?thesis by (rule only_carved_is_path[OF rect1 rect2 oc])
  qed
  have "room_cell width height (1, 1)" "room_cell width height (width - 2, height - 2)"
    using assms by (auto simp: room_cell_def)
  then have "is_path m2 width height (1, 1)" "is_path m2 width height (width - 2, height - 2)"
    using rooms by auto
  from clear_start_end_same[OF rect2 this] have
    "generate_maze width height dirs r = Inr (m2, r2)"
    by (simp add: generate_maze_def st al)
  moreover have "\<forall>c. is_path m2 width height c \<longrightarrow> reachable m2 width height (1, 1) c"
    using conn2 unfolding connected_maze_def by blast
  ultimately show ?thesis using rect2 rooms by blast
qed

theorem generate_maze_connected_witness:
  "odd (5::int) \<and> (5::int) \<le> 5 \<and> directions_ok DIRECTIONS
   \<and> (\<exists>maze r'. generate_maze 5 5 DIRECTIONS (\<lambda>n. 0) = Inr (maze, r')
        \<and> rect_maze maze 5 5
        \<and> is_path maze 5 5 (3, 3) \<and> reachable maze 5 5 (1, 1) (3, 3))"
proof -
  have h: "odd (5::int)" "(5::int) \<le> 5" "directions_ok DIRECTIONS"
    by (simp_all add: directions_ok_def)
  have rc: "room_cell 5 5 (3, 3)" by (simp add: room_cell_def)
  from generate_maze_connected[OF h(1) h(1) h(2) h(2) h(3), of "\<lambda>n. 0"] rc h
  show ?thesis by blast
qed

theorem add_loops_only_carves_witness:
  "rect_maze [[1,1,1,1,1],[1,0,1,0,1],[1,0,1,0,1],[1,0,0,0,1],[1,1,1,1,1]] 5 5 \<and> (3::int) \<le> 5
   \<and> (\<exists>maze' r'. add_loops 2 5 5 DIRECTIONS
          [[1,1,1,1,1],[1,0,1,0,1],[1,0,1,0,1],[1,0,0,0,1],[1,1,1,1,1]] (\<lambda>n. 0) = Inr (maze', r')
        \<and> rect_maze maze' 5 5
        \<and> only_carved [[1,1,1,1,1],[1,0,1,0,1],[1,0,1,0,1],[1,0,0,0,1],[1,1,1,1,1]] maze' 5 5)"
proof -
  have r: "rect_maze [[1,1,1,1,1],[1,0,1,0,1],[1,0,1,0,1],[1,0,0,0,1],[1,1,1,1,1]] 5 5"
    by (simp add: rect_maze_def)
  have h: "(3::int) \<le> 5" by simp
  from add_loops_only_carves[OF r h h, of 2 DIRECTIONS "\<lambda>n. 0"] r h
  show ?thesis by blast
qed


section \<open>Properties of the feature placement\<close>


lemma open_neighbours_elem:
  assumes "open_neighbours dirs maze w h c = Inr ns" "n \<in> set ns"
  shows "is_path maze w h n \<and> (\<exists>d\<in>set dirs. n = (fst c + fst d, snd c + snd d))"
  using assms
proof (induction dirs arbitrary: ns)
  case Nil
  then show ?case by simp
next
  case (Cons d ds)
  from Cons.prems(1) obtain ok ns' where
    ok: "cell_open maze w h (fst c + fst d) (snd c + snd d) = Inr ok"
    and ns': "open_neighbours ds maze w h c = Inr ns'"
    and ns: "ns = (if ok then (fst c + fst d, snd c + snd d) # ns' else ns')"
    by (auto simp: Let_def split: sum.splits)
  show ?case
  proof (cases "n \<in> set ns'")
    case True
    from Cons.IH[OF ns' True] show ?thesis by auto
  next
    case False
    then have "ok" "n = (fst c + fst d, snd c + snd d)" using Cons.prems(2) ns by (auto split: if_splits)
    then show ?thesis using ok by (auto simp: is_path_def)
  qed
qed

lemma unit_step_DIRECTIONS:
  "d \<in> set [(0, 1), (1, 0), (0, -1), (-1, 0)] \<Longrightarrow> unit_step c (fst c + fst d, snd c + snd d)"
  by (auto simp: unit_step_def)

lemma avoid_expand_entries:
  "set (snd (avoid_expand ns path visited blocked queue))
     \<subseteq> set queue \<union> {(n, path @ [n]) | n. n \<in> set ns \<and> n \<notin> blocked}"
proof (induction ns arbitrary: visited queue)
  case Nil
  then show ?case by simp
next
  case (Cons n ns)
  show ?case
  proof (cases "n \<notin> visited \<and> n \<notin> blocked")
    case True
    then show ?thesis using Cons.IH[of "insert n visited" "queue @ [(n, path @ [n])]"] by auto
  next
    case False
    then show ?thesis using Cons.IH[of visited queue] by auto
  qed
qed

lemma avoiding_route_snoc:
  assumes "avoiding_route maze w h blocked s c p" "unit_step c n" "is_path maze w h n" "n \<notin> blocked"
  shows "avoiding_route maze w h blocked s n (p @ [n])"
proof -
  from assms(1) have p: "walk maze w h p" "hd p = s" "last p = c" "set (tl p) \<inter> blocked = {}"
    by (auto simp: avoiding_route_def route_def)
  then have ne: "p \<noteq> []" by (simp add: walk_def)
  have "walk maze w h (p @ [n])" using p assms by (auto simp: walk_def successively_append_iff)
  then show ?thesis using p ne assms(4) by (auto simp: avoiding_route_def route_def)
qed

lemma bfs_avoid_enemy_loop_sound:
  assumes "\<forall>(c, p)\<in>set queue. avoiding_route maze w h blocked s c p"
    and "bfs_avoid_enemy_loop maze w h blocked goal queue visited = Inr True"
  shows "\<exists>p. avoiding_route maze w h blocked s goal p"
  using assms
proof (induction maze w h blocked goal queue visited rule: bfs_avoid_enemy_loop.induct)
  case (1 maze w h blocked goal queue visited)
  show ?case
  proof (cases queue)
    case Nil
    then show ?thesis using "1.prems"(2) by (subst (asm) bfs_avoid_enemy_loop.simps) simp
  next
    case (Cons entry rest)
    obtain c path where e: "entry = (c, path)" by (cases entry)
    have rc: "avoiding_route maze w h blocked s c path" using "1.prems"(1) Cons e by auto
    show ?thesis
    proof (cases "c = goal")
      case True
      then show ?thesis using rc by blast
    next
      case False
      from "1.prems"(2) Cons e False obtain ns visited' queue' where
        ns: "open_neighbours [(0, 1), (1, 0), (0, -1), (-1, 0)] maze w h c = Inr ns"
        and ex: "avoid_expand ns path visited blocked rest = (visited', queue')"
        and rec: "bfs_avoid_enemy_loop maze w h blocked goal queue' visited' = Inr True"
        by (subst (asm) bfs_avoid_enemy_loop.simps) (auto split: sum.splits prod.splits)
      have "\<forall>(c', p')\<in>set queue'. avoiding_route maze w h blocked s c' p'"
      proof (intro ballI, clarify)
        fix c' p' assume m: "(c', p') \<in> set queue'"
        from avoid_expand_entries[of ns path visited blocked rest] ex m
        consider "(c', p') \<in> set rest" | "c' \<in> set ns" "c' \<notin> blocked" "p' = path @ [c']"
          by auto
        then show "avoiding_route maze w h blocked s c' p'"
        proof cases
          case 1
          then show ?thesis using "1.prems"(1) Cons by auto
        next
          case 2
          from open_neighbours_elem[OF ns 2(1)] obtain d where
            "is_path maze w h c'" "d \<in> set [(0, 1), (1, 0), (0, -1), (-1, 0)]"
            "c' = (fst c + fst d, snd c + snd d)" by blast
          then have "is_path maze w h c'" "unit_step c c'"
            using unit_step_DIRECTIONS[of d c] by auto
          from avoiding_route_snoc[OF rc this(2) this(1) 2(2)] show ?thesis using 2(3) by simp
        qed
      qed
      from "1.IH"[OF Cons e[symmetric] False ns ex[symmetric] this rec] show ?thesis .
    qed
  qed
qed

lemma bfs_avoid_enemy_sound:
  assumes "bfs_avoid_enemy maze w h blocked s goal = Inr True"
  shows "\<exists>p. avoiding_route maze w h blocked s goal p"
proof -
  have "avoiding_route maze w h blocked s s [s]"
    by (simp add: avoiding_route_def route_def walk_def)
  then have "\<forall>(c, p)\<in>set [(s, [s])]. avoiding_route maze w h blocked s c p" by simp
  from bfs_avoid_enemy_loop_sound[OF this] assms show ?thesis by (simp add: bfs_avoid_enemy_def)
qed

lemma py_min_by_least: "\<forall>x\<in>set (best # xs). f (py_min_by f best xs) \<le> f x"
proof (induction xs arbitrary: best)
  case Nil
  show ?case by simp
next
  case (Cons x xs)
  show ?case
  proof (cases "f x < f best")
    case True
    then show ?thesis using Cons.IH[of x] by auto
  next
    case False
    then show ?thesis using Cons.IH[of best] by auto
  qed
qed

lemma nearest_key_is_nearest:
  "nearest_key pos k ks \<in> set (k # ks)
   \<and> (\<forall>k'\<in>set (k # ks). manhattan pos (nearest_key pos k ks) \<le> manhattan pos k')"
  unfolding nearest_key_def using py_min_by_in[of "manhattan pos" k ks] py_min_by_least[of k ks "manhattan pos"]
  by blast

lemma chain_legs_Cons: "chain_legs pos (k # order) exit_pos = (pos, k) # chain_legs k order exit_pos"
  by (simp add: chain_legs_def)

lemma chain_reachable_order:
  assumes "chain_reachable maze w h blocked pos keys exit_pos = Inr True"
  shows "\<exists>order. mset order = mset keys \<and> nearest_first pos order
           \<and> (\<forall>(a, b)\<in>set (chain_legs pos order exit_pos).
                 bfs_avoid_enemy maze w h blocked a b = Inr True)"
  using assms
proof (induction "length keys" arbitrary: pos keys rule: less_induct)
  case less
  show ?case
  proof (cases keys)
    case Nil
    then have "bfs_avoid_enemy maze w h blocked pos exit_pos = Inr True"
      using less.prems by (subst (asm) chain_reachable.simps) simp
    then have "mset [] = mset keys \<and> nearest_first pos []
           \<and> (\<forall>(a, b)\<in>set (chain_legs pos [] exit_pos).
                 bfs_avoid_enemy maze w h blocked a b = Inr True)"
      using Nil by (simp add: chain_legs_def)
    then show ?thesis by blast
  next
    case (Cons k ks)
    let ?n = "nearest_key pos k ks"
    let ?rest = "remove1 ?n (k # ks)"
    have unf: "chain_reachable maze w h blocked pos (k # ks) exit_pos =
       (case bfs_avoid_enemy maze w h blocked pos ?n of
          Inl e \<Rightarrow> Inl e
        | Inr ok \<Rightarrow> if \<not> ok then Inr False
                    else chain_reachable maze w h blocked ?n ?rest exit_pos)"
      by (subst chain_reachable.simps) simp
    from less.prems[unfolded Cons unf] have a: "bfs_avoid_enemy maze w h blocked pos ?n = Inr True"
      and b: "chain_reachable maze w h blocked ?n ?rest exit_pos = Inr True"
      by (auto split: sum.splits if_splits)
    from nearest_key_is_nearest[of pos k ks] have mem: "?n \<in> set (k # ks)"
      and least: "\<forall>k'\<in>set (k # ks). manhattan pos ?n \<le> manhattan pos k'" by blast+
    have len: "length ?rest < length keys"
      using mem Cons by (simp only: length_remove1 if_True) simp
    from less.hyps[OF len b] obtain order where
      ms: "mset order = mset ?rest" and nf: "nearest_first ?n order"
      and lg: "\<forall>(a, b)\<in>set (chain_legs ?n order exit_pos).
                 bfs_avoid_enemy maze w h blocked a b = Inr True"
      by blast
    have ms': "mset (?n # order) = mset keys"
      using ms mem Cons by (simp only: mset.simps mset_remove1) simp
    have "set order \<subseteq> set (k # ks)"
      using ms by (metis mset_eq_setD set_remove1_subset)
    then have "list_all (\<lambda>k'. manhattan pos ?n \<le> manhattan pos k') order"
      using least by (auto simp: list_all_iff)
    then have nf': "nearest_first pos (?n # order)"
      using nf by (simp add: manhattan_def)
    have lg': "\<forall>(a, b)\<in>set (chain_legs pos (?n # order) exit_pos).
                 bfs_avoid_enemy maze w h blocked a b = Inr True"
      using lg a by (simp add: chain_legs_Cons)
    from ms' nf' lg' show ?thesis by blast
  qed
qed

lemma retry_loop_accepted:
  assumes "retry_loop n maze w h end_pos required_keys old_path r = Inr (Accepted fs r')"
  shows "is_solvable_with_enemy maze w h end_pos fs = Inr True"
  using assms
proof (induction n arbitrary: old_path r)
  case 0
  then show ?case by (auto split: sum.splits prod.splits)
next
  case (Suc n)
  from Suc.prems obtain fs1 r1 ok where
    at: "place_attempt maze w h end_pos required_keys old_path r = Inr (fs1, r1)"
    and so: "is_solvable_with_enemy maze w h end_pos fs1 = Inr ok"
    and res: "(if ok then Inr (Accepted fs1 r1)
               else retry_loop n maze w h end_pos required_keys (fs_enemy_path fs1) r1)
              = Inr (Accepted fs r')"
    by (auto split: sum.splits prod.splits)
  show ?case
  proof (cases ok)
    case True
    then show ?thesis using res so by simp
  next
    case False
    then show ?thesis using res Suc.IH by simp
  qed
qed

text \<open>
  C2. A feature set that \<open>setup_difficulty_features\<close> returns from inside its retry
  loop passed \<open>is_solvable_with_enemy\<close>. With exactly the cells of the enemy patrol
  path blocked (traps play no part), there is an order of the keys, nearest first from
  \<open>(1, 1)\<close> by Manhattan distance, such that \<open>bfs_avoid_enemy\<close> succeeds on every
  consecutive leg of the chain from \<open>(1, 1)\<close> through the keys in that order to the
  exit, and every such leg has a route over path cells that avoids the patrol cells.
\<close>

theorem accepted_features_solvable:
  assumes "setup_difficulty_features maze width height end_pos required_keys old_enemy_path r
             = Inr (Accepted fs r')"
  shows "is_solvable_with_enemy maze width height end_pos fs = Inr True
       \<and> (\<exists>order. mset order = mset (fs_keys fs) \<and> nearest_first (1, 1) order
            \<and> (\<forall>(a, b)\<in>set (chain_legs (1, 1) order end_pos).
                 bfs_avoid_enemy maze width height (set (fs_enemy_path fs)) a b = Inr True
                 \<and> (\<exists>p. avoiding_route maze width height (set (fs_enemy_path fs)) a b p)))"
proof -
  from retry_loop_accepted[OF assms[unfolded setup_difficulty_features_def]]
  have s: "is_solvable_with_enemy maze width height end_pos fs = Inr True" .
  then obtain order where ms: "mset order = mset (fs_keys fs)"
    and nf: "nearest_first (1, 1) order"
    and l: "\<forall>(a, b)\<in>set (chain_legs (1, 1) order end_pos).
            bfs_avoid_enemy maze width height (set (fs_enemy_path fs)) a b = Inr True"
    unfolding is_solvable_with_enemy_def using chain_reachable_order by blast
  have "bfs_avoid_enemy maze width height (set (fs_enemy_path fs)) a b = Inr True
        \<and> (\<exists>p. avoiding_route maze width height (set (fs_enemy_path fs)) a b p)"
    if "(a, b) \<in> set (chain_legs (1, 1) order end_pos)" for a b
  proof -
    from l that have t: "bfs_avoid_enemy maze width height (set (fs_enemy_path fs)) a b = Inr True"
      by blast
    from bfs_avoid_enemy_sound[OF t] t show ?thesis by simp
  qed
  then have "\<forall>(a, b)\<in>set (chain_legs (1, 1) order end_pos).
                 bfs_avoid_enemy maze width height (set (fs_enemy_path fs)) a b = Inr True
                 \<and> (\<exists>p. avoiding_route maze width height (set (fs_enemy_path fs)) a b p)"
    by blast
  with ms nf s show ?thesis by blast
qed

text \<open>
  The theorem on a ring of corridors, 9 by 5, with three keys. The keys are drawn in
  the order \<open>(4, 1), (2, 1), (3, 1)\<close>, a trap and two teleporter pairs are placed, and
  the enemy spawns at \<open>(1, 2)\<close> and patrols seven cells down the left side and along
  the bottom corridor. The first attempt is accepted: the upper corridor and the right
  side stay free.
\<close>

lemma accepted_example:
  "map_sum id (\<lambda>pl. (accepted pl, placed pl))
     (setup_difficulty_features
        [[1,1,1,1,1,1,1,1,1],[1,0,0,0,0,0,0,0,1],[1,0,1,1,1,1,1,0,1],[1,0,0,0,0,0,0,0,1],
         [1,1,1,1,1,1,1,1,1]]
        9 5 (7, 3) 3 [] (\<lambda>n. if n = 0 then 2 else if n = 8 then 2 else 0))
   = Inr (True, \<lparr>fs_keys = [(4, 1), (2, 1), (3, 1)], fs_traps = [(5, 1)],
                 fs_teleporters = [((6, 1), (7, 1)), ((1, 2), (7, 2))],
                 fs_enemy_pos = Some (1, 2),
                 fs_enemy_path = [(1, 2), (1, 3), (2, 3), (3, 3), (4, 3), (5, 3), (6, 3)]\<rparr>)"
  by code_simp

theorem accepted_features_solvable_witness:
  "\<exists>r'. setup_difficulty_features
        [[1,1,1,1,1,1,1,1,1],[1,0,0,0,0,0,0,0,1],[1,0,1,1,1,1,1,0,1],[1,0,0,0,0,0,0,0,1],
         [1,1,1,1,1,1,1,1,1]]
        9 5 (7, 3) 3 [] (\<lambda>n. if n = 0 then 2 else if n = 8 then 2 else 0)
      = Inr (Accepted \<lparr>fs_keys = [(4, 1), (2, 1), (3, 1)], fs_traps = [(5, 1)],
                 fs_teleporters = [((6, 1), (7, 1)), ((1, 2), (7, 2))],
                 fs_enemy_pos = Some (1, 2),
                 fs_enemy_path = [(1, 2), (1, 3), (2, 3), (3, 3), (4, 3), (5, 3), (6, 3)]\<rparr> r')
    \<and> (\<exists>order. mset order = mset [(4, 1), (2, 1), (3, 1)] \<and> nearest_first (1, 1) order
          \<and> (\<forall>(a, b)\<in>set (chain_legs (1, 1) order (7, 3)).
               \<exists>p. avoiding_route
                      [[1,1,1,1,1,1,1,1,1],[1,0,0,0,0,0,0,0,1],[1,0,1,1,1,1,1,0,1],
                       [1,0,0,0,0,0,0,0,1],[1,1,1,1,1,1,1,1,1]]
                      9 5 (set [(1, 2), (1, 3), (2, 3), (3, 3), (4, 3), (5, 3), (6, 3)]) a b p))"
proof -
  let ?m = "[[1,1,1,1,1,1,1,1,1],[1,0,0,0,0,0,0,0,1],[1,0,1,1,1,1,1,0,1],[1,0,0,0,0,0,0,0,1],
             [1,1,1,1,1,1,1,1,1::int]]"
  let ?r = "\<lambda>n::nat. if n = 0 then 2 else if n = 8 then 2 else (0::nat)"
  let ?fs = "\<lparr>fs_keys = [(4, 1), (2, 1), (3, 1)], fs_traps = [(5, 1)],
                 fs_teleporters = [((6, 1), (7, 1)), ((1, 2), (7, 2))],
                 fs_enemy_pos = Some (1, 2),
                 fs_enemy_path = [(1, 2), (1, 3), (2, 3), (3, 3), (4, 3), (5, 3), (6, 3)]\<rparr>"
  obtain pl where pl: "setup_difficulty_features ?m 9 5 (7, 3) 3 [] ?r = Inr pl"
    and a: "accepted pl" and p: "placed pl = ?fs"
    using accepted_example
    by (cases "setup_difficulty_features ?m 9 5 (7, 3) 3 [] ?r") auto
  then obtain r' where "pl = Accepted ?fs r'" by (cases pl) auto
  with pl have e: "setup_difficulty_features ?m 9 5 (7, 3) 3 [] ?r = Inr (Accepted ?fs r')"
    by simp
  from accepted_features_solvable[OF e] obtain order where
    o: "mset order = mset (fs_keys ?fs)" "nearest_first (1, 1) order"
    "\<forall>(a, b)\<in>set (chain_legs (1, 1) order (7, 3)).
        bfs_avoid_enemy ?m 9 5 (set (fs_enemy_path ?fs)) a b = Inr True
        \<and> (\<exists>p. avoiding_route ?m 9 5 (set (fs_enemy_path ?fs)) a b p)"
    by blast
  from o(3) have "\<forall>(a, b)\<in>set (chain_legs (1, 1) order (7, 3)).
        \<exists>p. avoiding_route ?m 9 5 (set [(1, 2), (1, 3), (2, 3), (3, 3), (4, 3), (5, 3), (6, 3)]) a b p"
    by (simp add: case_prod_unfold)
  with o(1,2) e show ?thesis by (intro exI[of _ r'] conjI exI[of _ order]) simp_all
qed

lemma maze_get_rect':
  assumes "rect_maze maze w h" "0 \<le> x" "x < w" "0 \<le> y" "y < h"
  shows "\<exists>v. maze_get maze x y = Inr v"
proof -
  have y: "nat y < length maze" using assms by (auto simp: rect_maze_def)
  then have "int (length (maze ! nat y)) = w" using assms by (auto simp: rect_maze_def list_all_length)
  then show ?thesis using assms y by (simp add: maze_get_def py_index_in rect_maze_def)
qed

lemma collect_empty_total:
  assumes "rect_maze maze w h" "\<forall>c\<in>set cs. 0 \<le> fst c \<and> fst c < w \<and> 0 \<le> snd c \<and> snd c < h"
  shows "\<exists>l. collect_empty maze end_pos cs = Inr l \<and> set l \<subseteq> set cs"
  using assms(2)
proof (induction cs)
  case Nil
  show ?case by simp
next
  case (Cons c cs)
  from Cons obtain l where l: "collect_empty maze end_pos cs = Inr l" "set l \<subseteq> set cs" by auto
  from Cons.prems maze_get_rect'[OF assms(1), of "fst c" "snd c"] obtain v where
    "maze_get maze (fst c) (snd c) = Inr v" by auto
  then show ?case using l by auto
qed

lemma empty_spaces_total:
  assumes "rect_maze maze w h"
  shows "\<exists>l. empty_spaces maze w h end_pos = Inr l"
proof -
  have "\<forall>c\<in>set (inner_cells w h). 0 \<le> fst c \<and> fst c < w \<and> 0 \<le> snd c \<and> snd c < h"
    by (auto simp: inner_cells_def)
  from collect_empty_total[OF assms this] show ?thesis unfolding empty_spaces_def by blast
qed

lemma enemy_extend_total:
  assumes "rect_maze maze w h"
  shows "\<exists>path. enemy_extend n maze w h p c = Inr path"
  using enemy_extend_props[OF assms] by blast

lemma create_enemy_path_total:
  assumes "rect_maze maze w h"
  shows "\<exists>path. create_enemy_path enemy old maze w h = Inr path"
  using enemy_extend_total[OF assms] by (cases enemy) (auto simp: create_enemy_path_def)

lemma place_attempt_total:
  assumes "rect_maze maze w h"
  shows "\<exists>fs r'. place_attempt maze w h end_pos k old r = Inr (fs, r')"
proof -
  from empty_spaces_total[OF assms] obtain spaces where
    sp: "empty_spaces maze w h end_pos = Inr spaces" by blast
  obtain keys available r1 where pk: "pick_cells k r spaces [] = (keys, available, r1)"
    by (cases "pick_cells k r spaces []") auto
  let ?tc = "filter (\<lambda>pos. pos \<notin> set keys) spaces"
  obtain traps trap_rest r2 where
    pt: "pick_cells (min 8 (length ?tc div 10)) r1 ?tc [] = (traps, trap_rest, r2)"
    by (cases "pick_cells (min 8 (length ?tc div 10)) r1 ?tc []") auto
  let ?cand = "filter (\<lambda>pos. pos \<notin> set keys \<and> pos \<notin> set traps) spaces"
  obtain teleporters r3 where
    tp: "(if length ?cand \<ge> 4 then pick_pairs 2 r2 ?cand [] else ([], r2)) = (teleporters, r3)"
    by (cases "(if length ?cand \<ge> 4 then pick_pairs 2 r2 ?cand [] else ([], r2))") auto
  obtain enemy r4 where
    en: "(if ?cand \<noteq> [] then (case choice r3 ?cand of (pos, r4) \<Rightarrow> (Some pos, r4))
          else (None, r3)) = (enemy, r4)"
    by (cases "(if ?cand \<noteq> [] then (case choice r3 ?cand of (pos, r4) \<Rightarrow> (Some pos, r4))
          else (None, r3))") auto
  from create_enemy_path_total[OF assms, of enemy old] obtain path where
    cp: "create_enemy_path enemy old maze w h = Inr path" by blast
  have "place_attempt maze w h end_pos k old r
        = Inr (\<lparr>fs_keys = keys, fs_traps = traps, fs_teleporters = teleporters,
                 fs_enemy_pos = enemy, fs_enemy_path = path\<rparr>, r4)"
    unfolding place_attempt_def sp
    by (simp only: sum.case pk prod.case Let_def pt tp en cp)
  then show ?thesis by blast
qed

lemma pick_cells_props:
  "pick_cells n r available picked = (picked', available', r')
   \<Longrightarrow> length picked' \<le> length picked + n \<and> set picked' \<subseteq> set picked \<union> set available"
proof (induction n arbitrary: r available picked)
  case 0
  then show ?case by simp
next
  case (Suc n)
  show ?case
  proof (cases "available = []")
    case True
    then show ?thesis using Suc.IH[of r available picked] Suc.prems by auto
  next
    case False
    obtain pos r1 where ch: "choice r available = (pos, r1)" by (cases "choice r available")
    then have "pos \<in> set available" using choice_in_set[OF False, of r] by simp
    moreover have "pick_cells n r1 (remove1 pos available) (picked @ [pos]) = (picked', available', r')"
      using Suc.prems False ch by simp
    from Suc.IH[OF this] have "length picked' \<le> length picked + Suc n"
      "set picked' \<subseteq> set (picked @ [pos]) \<union> set (remove1 pos available)" by auto
    ultimately show ?thesis using set_remove1_subset[of pos available] by auto
  qed
qed

lemma place_fallback_props:
  assumes "rect_maze maze w h"
  shows "\<exists>fs r' spaces. place_fallback maze w h end_pos k old r = Inr (fs, r')
      \<and> fs_traps fs = [] \<and> fs_teleporters fs = []
      \<and> empty_spaces maze w h end_pos = Inr spaces
      \<and> length (fs_keys fs) \<le> k \<and> set (fs_keys fs) \<subseteq> set spaces"
proof -
  from empty_spaces_total[OF assms] obtain spaces where
    sp: "empty_spaces maze w h end_pos = Inr spaces" by blast
  obtain keys available r1 where pk: "pick_cells k r spaces [] = (keys, available, r1)"
    by (cases "pick_cells k r spaces []") auto
  from pick_cells_props[OF pk] have kp: "length keys \<le> k" "set keys \<subseteq> set spaces" by auto
  obtain enemy r2 where en: "(if available \<noteq> []
                      then (case choice r1 available of (pos, r2) \<Rightarrow> (Some pos, r2))
                      else (None, r1)) = (enemy, r2)"
    by (cases "(if available \<noteq> []
                      then (case choice r1 available of (pos, r2) \<Rightarrow> (Some pos, r2))
                      else (None, r1))") auto
  from create_enemy_path_total[OF assms, of enemy old] obtain path where
    cp: "create_enemy_path enemy old maze w h = Inr path" by blast
  have "place_fallback maze w h end_pos k old r
        = Inr (\<lparr>fs_keys = keys, fs_traps = [], fs_teleporters = [],
                 fs_enemy_pos = enemy, fs_enemy_path = path\<rparr>, r2)"
    unfolding place_fallback_def sp using pk en cp by simp
  then show ?thesis using kp sp by auto
qed

lemma bfs_avoid_enemy_loop_total:
  assumes "rect_maze maze w h"
  shows "\<exists>b. bfs_avoid_enemy_loop maze w h blocked goal queue visited = Inr b"
  using assms
proof (induction maze w h blocked goal queue visited rule: bfs_avoid_enemy_loop.induct)
  case (1 maze w h blocked goal queue visited)
  note rect = "1.prems"
  show ?case
  proof (cases queue)
    case Nil
    then show ?thesis by (subst bfs_avoid_enemy_loop.simps) auto
  next
    case (Cons entry rest)
    obtain c path where e: "entry = (c, path)" by (cases entry)
    show ?thesis
    proof (cases "c = goal")
      case True
      then show ?thesis using Cons e by (subst bfs_avoid_enemy_loop.simps) auto
    next
      case False
      let ?ns = "nbrs [(0, 1), (1, 0), (0, -1), (-1, 0)] maze w h c"
      obtain visited' queue' where ex: "avoid_expand ?ns path visited blocked rest = (visited', queue')"
        by (cases "avoid_expand ?ns path visited blocked rest")
      from "1.IH"[OF Cons e[symmetric] False open_neighbours_rect[OF rect] ex[symmetric] rect]
      obtain b where "bfs_avoid_enemy_loop maze w h blocked goal queue' visited' = Inr b" by blast
      then show ?thesis using Cons e False ex open_neighbours_rect[OF rect]
        by (subst bfs_avoid_enemy_loop.simps) simp
    qed
  qed
qed

lemma chain_reachable_total:
  assumes "rect_maze maze w h"
  shows "\<exists>b. chain_reachable maze w h blocked pos keys exit_pos = Inr b"
proof (induction "length keys" arbitrary: pos keys rule: less_induct)
  case less
  show ?case
  proof (cases keys)
    case Nil
    then show ?thesis using bfs_avoid_enemy_loop_total[OF assms]
      by (subst chain_reachable.simps) (simp add: bfs_avoid_enemy_def)
  next
    case (Cons k ks)
    let ?n = "nearest_key pos k ks"
    from bfs_avoid_enemy_loop_total[OF assms] obtain ok where
      ok: "bfs_avoid_enemy maze w h blocked pos ?n = Inr ok" unfolding bfs_avoid_enemy_def by blast
    have "?n \<in> set (k # ks)" using nearest_key_is_nearest[of pos k ks] by blast
    then have "length (remove1 ?n (k # ks)) < length keys"
      using Cons by (simp only: length_remove1 if_True) simp
    from less.hyps[OF this] obtain b where
      "chain_reachable maze w h blocked ?n (remove1 ?n (k # ks)) exit_pos = Inr b" by blast
    then show ?thesis using ok Cons by (subst chain_reachable.simps) auto
  qed
qed

lemma retry_loop_props:
  assumes "rect_maze maze w h"
  shows "\<exists>pl. retry_loop n maze w h end_pos k old r = Inr pl
      \<and> (accepted pl \<longrightarrow> is_solvable_with_enemy maze w h end_pos (placed pl) = Inr True)
      \<and> (\<not> accepted pl \<longrightarrow> fs_traps (placed pl) = [] \<and> fs_teleporters (placed pl) = []
            \<and> length (fs_keys (placed pl)) \<le> k
            \<and> (\<exists>spaces. empty_spaces maze w h end_pos = Inr spaces
                  \<and> set (fs_keys (placed pl)) \<subseteq> set spaces))"
proof (induction n arbitrary: old r)
  case 0
  from place_fallback_props[OF assms, of end_pos k old r] show ?case by auto
next
  case (Suc n)
  from place_attempt_total[OF assms, of end_pos k old r] obtain fs r1 where
    at: "place_attempt maze w h end_pos k old r = Inr (fs, r1)" by blast
  from chain_reachable_total[OF assms] obtain ok where
    so: "is_solvable_with_enemy maze w h end_pos fs = Inr ok"
    unfolding is_solvable_with_enemy_def by blast
  show ?case
  proof (cases ok)
    case True
    then show ?thesis using at so by simp
  next
    case False
    then show ?thesis using at so Suc.IH[of "fs_enemy_path fs" r1] by simp
  qed
qed

text \<open>
  On a rectangular maze \<open>setup_difficulty_features\<close> always returns a feature set and
  never an error: either from inside the retry loop, with a feature set that passed the
  solvability check, or, after \<open>max_attempts\<close> failed attempts, the fallback, which has
  no traps and no teleporters.
\<close>

lemma setup_difficulty_features_total:
  assumes "rect_maze maze width height"
  shows "\<exists>pl. setup_difficulty_features maze width height end_pos required_keys old_enemy_path r
               = Inr pl
      \<and> (accepted pl \<longrightarrow>
            is_solvable_with_enemy maze width height end_pos (placed pl) = Inr True)
      \<and> (\<not> accepted pl \<longrightarrow>
            fs_traps (placed pl) = [] \<and> fs_teleporters (placed pl) = []
            \<and> length (fs_keys (placed pl)) \<le> required_keys
            \<and> (\<exists>spaces. empty_spaces maze width height end_pos = Inr spaces
                  \<and> set (fs_keys (placed pl)) \<subseteq> set spaces))"
  unfolding setup_difficulty_features_def by (rule retry_loop_props[OF assms])

lemma blocked_goal_no_route:
  assumes "t \<in> blocked" and "a \<noteq> t"
  shows "\<not> avoiding_route maze w h blocked a t p"
proof
  assume r: "avoiding_route maze w h blocked a t p"
  then have p: "p \<noteq> []" "hd p = a" "last p = t" "set (tl p) \<inter> blocked = {}"
    by (auto simp: avoiding_route_def route_def walk_def)
  then obtain q where q: "p = a # q" by (cases p) auto
  with p(3) assms(2) have "q \<noteq> []" by auto
  then have "last p \<in> set (tl p)" using q by simp
  with p(3,4) assms(1) show False by auto
qed

text \<open>
  C4. The code does not do what the claim says. In this maze, which \<open>generate_maze\<close>
  produces for the random source given, with three keys required and every random choice taking the first
  candidate, all twenty attempts fail the solvability check. The fallback that
  \<open>setup_difficulty_features\<close> then builds has no traps and no teleporters, the keys
  \<open>(3, 1), (1, 2), (3, 2)\<close> and an enemy spawned at \<open>(1, 3)\<close> whose patrol runs over
  the exit \<open>(3, 3)\<close> and two of the keys. It is returned as it is, with no error:
  \<open>is_solvable_with_enemy\<close> is false on it, and no cell other than the exit has a
  route to the exit that avoids the patrol.
\<close>

theorem fallback_not_validated:
  "map_sum id fst (generate_maze 5 5 DIRECTIONS (\<lambda>n. if n = 5 \<or> n = 8 then 3 else 0))
     = Inr [[1,1,1,1,1],[1,0,1,0,1],[1,0,1,0,1],[1,0,0,0,1],[1,1,1,1,1]]
   \<and> map_sum id (\<lambda>pl. (accepted pl, placed pl))
     (setup_difficulty_features [[1,1,1,1,1],[1,0,1,0,1],[1,0,1,0,1],[1,0,0,0,1],[1,1,1,1,1]]
        5 5 (3, 3) 3 [] (\<lambda>n. 0))
   = Inr (False, \<lparr>fs_keys = [(3, 1), (1, 2), (3, 2)], fs_traps = [], fs_teleporters = [],
                  fs_enemy_pos = Some (1, 3),
                  fs_enemy_path = [(1, 3), (2, 3), (3, 3), (3, 2), (3, 1)]\<rparr>)
   \<and> is_solvable_with_enemy [[1,1,1,1,1],[1,0,1,0,1],[1,0,1,0,1],[1,0,0,0,1],[1,1,1,1,1]]
        5 5 (3, 3)
        \<lparr>fs_keys = [(3, 1), (1, 2), (3, 2)], fs_traps = [], fs_teleporters = [],
         fs_enemy_pos = Some (1, 3),
         fs_enemy_path = [(1, 3), (2, 3), (3, 3), (3, 2), (3, 1)]\<rparr> = Inr False
   \<and> \<not> (\<exists>a p. a \<noteq> (3, 3) \<and>
          avoiding_route [[1,1,1,1,1],[1,0,1,0,1],[1,0,1,0,1],[1,0,0,0,1],[1,1,1,1,1]] 5 5
            (set [(1, 3), (2, 3), (3, 3), (3, 2), (3, 1)]) a (3, 3) p)"
proof -
  let ?m = "[[1,1,1,1,1],[1,0,1,0,1],[1,0,1,0,1],[1,0,0,0,1],[1,1,1,1,1::int]]"
  let ?fs = "\<lparr>fs_keys = [(3, 1), (1, 2), (3, 2)], fs_traps = [], fs_teleporters = [],
         fs_enemy_pos = Some (1, 3),
         fs_enemy_path = [(1, 3), (2, 3), (3, 3), (3, 2), (3, 1)]\<rparr>"
  have a: "map_sum id (\<lambda>pl. (accepted pl, placed pl))
     (setup_difficulty_features ?m 5 5 (3, 3) 3 [] (\<lambda>n. 0)) = Inr (False, ?fs)"
    by code_simp
  have b: "is_solvable_with_enemy ?m 5 5 (3, 3) ?fs = Inr False"
    by code_simp
  have g: "map_sum id fst (generate_maze 5 5 DIRECTIONS (\<lambda>n. if n = 5 \<or> n = 8 then 3 else 0))
     = Inr ?m"
    by code_simp
  have "(3, 3) \<in> set [(1, 3), (2, 3), (3, 3), (3, 2), (3, 1::int)]" by simp
  from blocked_goal_no_route[OF this]
  have c: "\<not> (\<exists>a p. a \<noteq> (3, 3) \<and>
          avoiding_route ?m 5 5 (set [(1, 3), (2, 3), (3, 3), (3, 2), (3, 1)]) a (3, 3) p)"
    by blast
  from g a b c show ?thesis by blast
qed

section \<open>Properties of the searches\<close>

subsection \<open>Returned paths are walks\<close>


lemma route_single: "route maze w h s s [s]"
  by (simp add: route_def walk_def)

lemma route_snoc:
  assumes "route maze w h s c p" "unit_step c n" "is_path maze w h n"
  shows "route maze w h s n (p @ [n])"
proof -
  from assms(1) have p: "walk maze w h p" "hd p = s" "last p = c" by (auto simp: route_def)
  then have "p \<noteq> []" by (simp add: walk_def)
  then show ?thesis using p walk_snoc[of maze w h p n] assms by (auto simp: route_def)
qed



subsection \<open>Breadth-first search\<close>




subsection \<open>UCS\<close>




subsection \<open>DFS\<close>




subsection \<open>DLS and IDS\<close>

lemma cell_open_is_path: "cell_open maze w h x y = Inr True \<longleftrightarrow> is_path maze w h (x, y)"
  by (simp add: is_path_def)

lemma dls_sound_aux:
  "(directions_ok dirs \<longrightarrow> route maze w h s c path \<longrightarrow>
      dls_recursive dirs c goal path visited d maze w h = Inr (Some p, m) \<longrightarrow>
      route maze w h s goal p)"
  "(directions_ok dirs \<longrightarrow> set ds \<subseteq> set dirs \<longrightarrow> route maze w h s c path \<longrightarrow>
      dls_children dirs ds c goal path visited d maze w h n = Inr (Some p, m) \<longrightarrow>
      route maze w h s goal p)"
proof (induction dirs c goal path visited d maze w h and dirs ds c goal path visited d maze w h n
       arbitrary: p m and p m rule: dls_recursive_dls_children.induct)
  case (1 dirs c goal path visited d maze w h)
  show ?case
  proof (intro impI)
    assume ok: "directions_ok dirs" and rc: "route maze w h s c path"
      and res: "dls_recursive dirs c goal path visited d maze w h = Inr (Some p, m)"
    show "route maze w h s goal p"
    proof (cases "d < 0")
      case True
      then show ?thesis using res by simp
    next
      case nd: False
      show ?thesis
      proof (cases "c = goal")
        case True
        then show ?thesis using res nd rc by simp
      next
        case False
        then have "dls_children dirs dirs c goal path (insert c visited) d maze w h 1 = Inr (Some p, m)"
          using res nd by simp
        with "1.IH"[OF nd False] ok rc show ?thesis by simp
      qed
    qed
  qed
next
  case (2 dirs c goal path visited d maze w h n)
  then show ?case by simp
next
  case (3 dirs dd ds c goal path visited d maze w h n)
  show ?case
  proof (intro impI)
    assume ok: "directions_ok dirs" and sub: "set (dd # ds) \<subseteq> set dirs"
      and rc: "route maze w h s c path"
      and res: "dls_children dirs (dd # ds) c goal path visited d maze w h n = Inr (Some p, m)"
    define nx where "nx = fst c + fst dd"
    define ny where "ny = snd c + snd dd"
    from res obtain okc where co: "cell_open maze w h nx ny = Inr okc"
      by (auto simp: Let_def nx_def ny_def split: sum.splits)
    have sub': "set ds \<subseteq> set dirs" using sub by simp
    show "route maze w h s goal p"
    proof (cases "okc \<and> (nx, ny) \<notin> visited")
      case True
      from res co True obtain result explored where
        rr: "dls_recursive dirs (nx, ny) goal (path @ [(nx, ny)]) visited (d - 1) maze w h
              = Inr (result, explored)"
        by (auto simp: Let_def nx_def ny_def split: sum.splits)
      have ip: "is_path maze w h (nx, ny)" using co True by (simp add: is_path_def)
      have us: "unit_step c (nx, ny)"
        using unit_step_dirs[OF ok, of dd c] sub by (simp add: nx_def ny_def)
      have rn: "route maze w h s (nx, ny) (path @ [(nx, ny)])"
        using route_snoc[OF rc us ip] .
      show ?thesis
      proof (cases "truthy result")
        case t: True
        then have "result = Some p" using res co True rr
          by (auto simp: Let_def nx_def[symmetric] ny_def[symmetric])
        with "3.IH"(1)[OF nx_def ny_def co True, of p explored] ok rn rr
        show ?thesis by simp
      next
        case f: False
        then have "dls_children dirs ds c goal path visited d maze w h (n + explored) = Inr (Some p, m)"
          using res co True rr by (auto simp: Let_def nx_def[symmetric] ny_def[symmetric])
        with "3.IH"(2)[OF nx_def ny_def co True rr refl f, of p m] ok sub' rc
        show ?thesis by simp
      qed
    next
      case False
      then have "dls_children dirs ds c goal path visited d maze w h n = Inr (Some p, m)"
        using res co by (auto simp: Let_def nx_def[symmetric] ny_def[symmetric])
      with "3.IH"(3)[OF nx_def ny_def co False, of p m] ok sub' rc
      show ?thesis by simp
    qed
  qed
qed

lemma dls_sound:
  assumes "directions_ok dirs" "dls dirs s goal maze w h d = Inr (Some p, m)"
  shows "route maze w h s goal p"
  using dls_sound_aux(1)[of dirs maze w h s s "[s]" goal "{}" d p m] assms
  by (simp add: dls_def route_single)



subsection \<open>Bidirectional\<close>




















subsection \<open>Iterative deepening finds a shortest route\<close>

lemma dls_total_aux:
  "rect_maze maze w h \<longrightarrow>
     (\<exists>res k. dls_recursive dirs c goal path visited d maze w h = Inr (res, k))"
  "rect_maze maze w h \<longrightarrow>
     (\<exists>res k. dls_children dirs ds c goal path visited d maze w h n = Inr (res, k))"
proof (induction dirs c goal path visited d maze w h and dirs ds c goal path visited d maze w h n
       rule: dls_recursive_dls_children.induct)
  case (1 dirs c goal path visited d maze w h)
  then show ?case by auto
next
  case (2 dirs c goal path visited d maze w h n)
  then show ?case by simp
next
  case (3 dirs dd ds c goal path visited d maze w h n)
  show ?case
  proof
    assume rect: "rect_maze maze w h"
    define nx where "nx = fst c + fst dd"
    define ny where "ny = snd c + snd dd"
    define okc where "okc = is_path maze w h (nx, ny)"
    have co: "cell_open maze w h nx ny = Inr okc"
      by (simp add: okc_def cell_open_rect_is_path[OF rect])
    show "\<exists>res k. dls_children dirs (dd # ds) c goal path visited d maze w h n = Inr (res, k)"
    proof (cases "okc \<and> (nx, ny) \<notin> visited")
      case True
      from "3.IH"(1)[OF nx_def ny_def co True] rect obtain result explored where
        rr: "dls_recursive dirs (nx, ny) goal (path @ [(nx, ny)]) visited (d - 1) maze w h
              = Inr (result, explored)" by blast
      show ?thesis
      proof (cases "truthy result")
        case t: True
        then show ?thesis using co True rr
          by (auto simp: Let_def nx_def[symmetric] ny_def[symmetric])
      next
        case f: False
        from "3.IH"(2)[OF nx_def ny_def co True rr refl f] rect obtain res k where
          "dls_children dirs ds c goal path visited d maze w h (n + explored) = Inr (res, k)"
          by blast
        then show ?thesis using co True rr f
          by (auto simp: Let_def nx_def[symmetric] ny_def[symmetric])
      qed
    next
      case False
      from "3.IH"(3)[OF nx_def ny_def co False] rect obtain res k where
        "dls_children dirs ds c goal path visited d maze w h n = Inr (res, k)" by blast
      then show ?thesis using co False
        by (auto simp: Let_def nx_def[symmetric] ny_def[symmetric])
    qed
  qed
qed

lemma dls_length_aux:
  "dls_recursive dirs c goal path visited d maze w h = Inr (Some p, m) \<longrightarrow>
     int (length p) \<le> int (length path) + d"
  "dls_children dirs ds c goal path visited d maze w h n = Inr (Some p, m) \<longrightarrow>
     int (length p) \<le> int (length path) + d"
proof (induction dirs c goal path visited d maze w h and dirs ds c goal path visited d maze w h n
       arbitrary: p m and p m rule: dls_recursive_dls_children.induct)
  case (1 dirs c goal path visited d maze w h)
  show ?case
  proof
    assume res: "dls_recursive dirs c goal path visited d maze w h = Inr (Some p, m)"
    show "int (length p) \<le> int (length path) + d"
    proof (cases "d < 0")
      case True
      then show ?thesis using res by simp
    next
      case nd: False
      show ?thesis
      proof (cases "c = goal")
        case True
        then show ?thesis using res nd by simp
      next
        case False
        then have "dls_children dirs dirs c goal path (insert c visited) d maze w h 1 = Inr (Some p, m)"
          using res nd by simp
        with "1.IH"[OF nd False] show ?thesis by simp
      qed
    qed
  qed
next
  case (2 dirs c goal path visited d maze w h n)
  then show ?case by simp
next
  case (3 dirs dd ds c goal path visited d maze w h n)
  show ?case
  proof
    assume res: "dls_children dirs (dd # ds) c goal path visited d maze w h n = Inr (Some p, m)"
    define nx where "nx = fst c + fst dd"
    define ny where "ny = snd c + snd dd"
    from res obtain okc where co: "cell_open maze w h nx ny = Inr okc"
      by (auto simp: Let_def nx_def ny_def split: sum.splits)
    show "int (length p) \<le> int (length path) + d"
    proof (cases "okc \<and> (nx, ny) \<notin> visited")
      case True
      from res co True obtain result explored where
        rr: "dls_recursive dirs (nx, ny) goal (path @ [(nx, ny)]) visited (d - 1) maze w h
              = Inr (result, explored)"
        by (auto simp: Let_def nx_def ny_def split: sum.splits)
      show ?thesis
      proof (cases "truthy result")
        case t: True
        then have "result = Some p" using res co True rr
          by (auto simp: Let_def nx_def[symmetric] ny_def[symmetric])
        with "3.IH"(1)[OF nx_def ny_def co True, of p explored] rr
        show ?thesis by simp
      next
        case f: False
        then have "dls_children dirs ds c goal path visited d maze w h (n + explored) = Inr (Some p, m)"
          using res co True rr by (auto simp: Let_def nx_def[symmetric] ny_def[symmetric])
        with "3.IH"(2)[OF nx_def ny_def co True rr refl f, of p m]
        show ?thesis by simp
      qed
    next
      case False
      then have "dls_children dirs ds c goal path visited d maze w h n = Inr (Some p, m)"
        using res co by (auto simp: Let_def nx_def[symmetric] ny_def[symmetric])
      with "3.IH"(3)[OF nx_def ny_def co False, of p m]
      show ?thesis by simp
    qed
  qed
qed

lemma unit_step_direction:
  assumes "directions_ok dirs" "unit_step c n"
  shows "\<exists>d\<in>set dirs. n = (fst c + fst d, snd c + snd d)"
proof -
  have "n = (fst c + 0, snd c + 1) \<or> n = (fst c + 1, snd c + 0)
      \<or> n = (fst c + 0, snd c + (-1)) \<or> n = (fst c + (-1), snd c + 0)"
    using assms(2) by (cases c; cases n) (auto simp: unit_step_def)
  then show ?thesis using directions_ok_set[OF assms(1)] by (auto simp: DIRECTIONS_def)
qed

lemma simple_route_tl:
  assumes "simple_route maze w h visited c goal q" "c \<noteq> goal"
  shows "\<exists>q'. q = c # q' \<and> q' \<noteq> [] \<and> unit_step c (hd q') \<and> is_path maze w h (hd q')
           \<and> hd q' \<notin> insert c visited
           \<and> simple_route maze w h (insert c visited) (hd q') goal q'"
proof -
  from assms(1) have q: "q \<noteq> []" "hd q = c" "last q = goal" "successively unit_step q"
    "list_all (is_path maze w h) (tl q)" "distinct q" "set (tl q) \<inter> visited = {}"
    by (auto simp: simple_route_def route_def walk_def)
  then obtain q' where qq: "q = c # q'" by (cases q) auto
  with q(3) assms(2) have ne: "q' \<noteq> []" by auto
  then obtain n r where q': "q' = n # r" by (cases q') auto
  have "route maze w h n goal q'"
    using q qq q' by (auto simp: route_def walk_def)
  moreover have "distinct q'" "set (tl q') \<inter> insert c visited = {}"
    using q(6,7) qq q' by auto
  moreover have "unit_step c n" "is_path maze w h n" "n \<notin> insert c visited"
    using q qq q' by auto
  ultimately show ?thesis using qq q' by (auto simp: simple_route_def)
qed

lemma dls_complete_aux:
  "rect_maze maze w h \<longrightarrow> directions_ok dirs \<longrightarrow> path \<noteq> [] \<longrightarrow>
     (\<exists>q. simple_route maze w h visited c goal q \<and> int (length q) \<le> d + 1) \<longrightarrow>
     (\<exists>p m. dls_recursive dirs c goal path visited d maze w h = Inr (Some p, m) \<and> p \<noteq> [])"
  "rect_maze maze w h \<longrightarrow> directions_ok dirs \<longrightarrow> path \<noteq> [] \<longrightarrow>
     (\<exists>q e. e \<in> set ds \<and> hd q = (fst c + fst e, snd c + snd e)
          \<and> is_path maze w h (hd q) \<and> hd q \<notin> visited
          \<and> simple_route maze w h visited (hd q) goal q \<and> int (length q) \<le> d) \<longrightarrow>
     (\<exists>p m. dls_children dirs ds c goal path visited d maze w h n = Inr (Some p, m) \<and> p \<noteq> [])"
proof (induction dirs c goal path visited d maze w h and dirs ds c goal path visited d maze w h n
       rule: dls_recursive_dls_children.induct)
  case (1 dirs c goal path visited d maze w h)
  show ?case
  proof (intro impI)
    assume rect: "rect_maze maze w h" and ok: "directions_ok dirs" and pne: "path \<noteq> []"
      and ex: "\<exists>q. simple_route maze w h visited c goal q \<and> int (length q) \<le> d + 1"
    then obtain q where q: "simple_route maze w h visited c goal q" "int (length q) \<le> d + 1"
      by blast
    have "q \<noteq> []" using q(1) by (auto simp: simple_route_def route_def walk_def)
    then have nd: "\<not> d < 0" using q(2) by (cases q) auto
    show "\<exists>p m. dls_recursive dirs c goal path visited d maze w h = Inr (Some p, m) \<and> p \<noteq> []"
    proof (cases "c = goal")
      case True
      then show ?thesis using nd pne by simp
    next
      case False
      from simple_route_tl[OF q(1) False] obtain q' where
        q': "q = c # q'" "q' \<noteq> []" "unit_step c (hd q')" "is_path maze w h (hd q')"
        "hd q' \<notin> insert c visited" "simple_route maze w h (insert c visited) (hd q') goal q'"
        by blast
      from unit_step_direction[OF ok q'(3)] obtain e where
        e: "e \<in> set dirs" "hd q' = (fst c + fst e, snd c + snd e)" by blast
      have "int (length q') \<le> d" using q(2) q'(1) by simp
      with e q' have "\<exists>q e. e \<in> set dirs \<and> hd q = (fst c + fst e, snd c + snd e)
          \<and> is_path maze w h (hd q) \<and> hd q \<notin> insert c visited
          \<and> simple_route maze w h (insert c visited) (hd q) goal q \<and> int (length q) \<le> d"
        by blast
      with "1.IH"[OF nd False] rect ok pne obtain p m where
        "dls_children dirs dirs c goal path (insert c visited) d maze w h 1 = Inr (Some p, m)"
        "p \<noteq> []" by blast
      then show ?thesis using nd False by simp
    qed
  qed
next
  case (2 dirs c goal path visited d maze w h n)
  then show ?case by simp
next
  case (3 dirs dd ds c goal path visited d maze w h n)
  show ?case
  proof (intro impI)
    assume rect: "rect_maze maze w h" and ok: "directions_ok dirs" and pne: "path \<noteq> []"
      and ex: "\<exists>q e. e \<in> set (dd # ds) \<and> hd q = (fst c + fst e, snd c + snd e)
          \<and> is_path maze w h (hd q) \<and> hd q \<notin> visited
          \<and> simple_route maze w h visited (hd q) goal q \<and> int (length q) \<le> d"
    then obtain q e where e: "e \<in> set (dd # ds)" "hd q = (fst c + fst e, snd c + snd e)"
      and q: "is_path maze w h (hd q)" "hd q \<notin> visited"
        "simple_route maze w h visited (hd q) goal q" "int (length q) \<le> d"
      by blast
    define nx where "nx = fst c + fst dd"
    define ny where "ny = snd c + snd dd"
    define okc where "okc = is_path maze w h (nx, ny)"
    have co: "cell_open maze w h nx ny = Inr okc"
      by (simp add: okc_def cell_open_rect_is_path[OF rect])
    have later: "e \<noteq> dd \<Longrightarrow> \<exists>q e. e \<in> set ds \<and> hd q = (fst c + fst e, snd c + snd e)
          \<and> is_path maze w h (hd q) \<and> hd q \<notin> visited
          \<and> simple_route maze w h visited (hd q) goal q \<and> int (length q) \<le> d"
    proof -
      assume "e \<noteq> dd"
      then have "e \<in> set ds" using e(1) by simp
      with e(2) q show ?thesis by blast
    qed
    show "\<exists>p m. dls_children dirs (dd # ds) c goal path visited d maze w h n = Inr (Some p, m) \<and> p \<noteq> []"
    proof (cases "okc \<and> (nx, ny) \<notin> visited")
      case True
      from dls_total_aux(1)[of maze w h dirs "(nx, ny)" goal "path @ [(nx, ny)]" visited "d - 1"] rect
      obtain result explored where
        rr: "dls_recursive dirs (nx, ny) goal (path @ [(nx, ny)]) visited (d - 1) maze w h
              = Inr (result, explored)" by blast
      show ?thesis
      proof (cases "truthy result")
        case t: True
        then obtain p where "result = Some p" "p \<noteq> []"
          by (cases result) (auto simp: truthy_def)
        then show ?thesis using co True rr t
          by (auto simp: Let_def nx_def[symmetric] ny_def[symmetric])
      next
        case f: False
        have "e \<noteq> dd"
        proof
          assume "e = dd"
          then have hq: "hd q = (nx, ny)" using e(2) by (simp add: nx_def ny_def)
          have "\<exists>q. simple_route maze w h visited (nx, ny) goal q \<and> int (length q) \<le> d - 1 + 1"
            using q(3,4) hq by auto
          with "3.IH"(1)[OF nx_def ny_def co True] rect ok obtain p m where
            "dls_recursive dirs (nx, ny) goal (path @ [(nx, ny)]) visited (d - 1) maze w h
              = Inr (Some p, m)" "p \<noteq> []" by blast
          with rr f show False by (simp add: truthy_def)
        qed
        from "3.IH"(2)[OF nx_def ny_def co True rr refl f] rect ok pne later[OF this]
        obtain p m where
          "dls_children dirs ds c goal path visited d maze w h (n + explored) = Inr (Some p, m)"
          "p \<noteq> []" by blast
        then show ?thesis using co True rr f
          by (auto simp: Let_def nx_def[symmetric] ny_def[symmetric])
      qed
    next
      case False
      have "e \<noteq> dd"
      proof
        assume "e = dd"
        then have hq: "hd q = (nx, ny)" using e(2) by (simp add: nx_def ny_def)
        then show False using q(1,2) False by (simp add: okc_def)
      qed
      from "3.IH"(3)[OF nx_def ny_def co False] rect ok pne later[OF this]
      obtain p m where
        "dls_children dirs ds c goal path visited d maze w h n = Inr (Some p, m)"
        "p \<noteq> []" by blast
      then show ?thesis using co False
        by (auto simp: Let_def nx_def[symmetric] ny_def[symmetric])
    qed
  qed
qed

lemma dls_total:
  assumes "rect_maze maze w h"
  shows "dls dirs s g maze w h d = Inr (dls_result dirs s g maze w h d, dls_nodes dirs s g maze w h d)"
proof -
  from dls_total_aux(1)[of maze w h dirs s g "[s]" "{}" d] assms obtain res k where
    "dls dirs s g maze w h d = Inr (res, k)" by (auto simp: dls_def)
  then show ?thesis by (simp add: dls_result_def dls_nodes_def)
qed

lemma dls_result_sound:
  assumes "directions_ok dirs" "dls_result dirs s g maze w h d = Some p"
  shows "route maze w h s g p \<and> int (length p) \<le> d + 1"
proof -
  from assms(2) obtain k where r: "dls dirs s g maze w h d = Inr (Some p, k)"
    by (auto simp: dls_result_def split: sum.splits)
  from dls_sound[OF assms(1) r] have "route maze w h s g p" .
  moreover from dls_length_aux(1)[of dirs s g "[s]" "{}" d maze w h p k] r
  have "int (length p) \<le> d + 1" by (simp add: dls_def)
  ultimately show ?thesis by simp
qed

lemma route_nonempty: "route maze w h s g p \<Longrightarrow> p \<noteq> []"
  by (simp add: route_def walk_def)

lemma dls_result_truthy:
  assumes "directions_ok dirs"
  shows "truthy (dls_result dirs s g maze w h d) \<longleftrightarrow> dls_result dirs s g maze w h d \<noteq> None"
proof (cases "dls_result dirs s g maze w h d")
  case None
  then show ?thesis by (simp add: truthy_def)
next
  case (Some p)
  from dls_result_sound[OF assms Some] have "p \<noteq> []" by (auto dest: route_nonempty)
  then show ?thesis using Some by (simp add: truthy_def)
qed

lemma shortest_route_distinct:
  assumes "shortest_route maze w h s g q"
  shows "distinct q"
proof (rule ccontr)
  assume "\<not> distinct q"
  then obtain xs ys zs y where d: "q = xs @ [y] @ ys @ [y] @ zs"
    using not_distinct_decomp by blast
  from assms have r: "q \<noteq> []" "hd q = s" "last q = g" "successively unit_step q"
    "list_all (is_path maze w h) (tl q)"
    and least: "\<And>q'. route maze w h s g q' \<Longrightarrow> length q \<le> length q'"
    by (auto simp: shortest_route_def route_def walk_def)
  let ?q = "xs @ [y] @ zs"
  have s1: "successively unit_step (xs @ [y])" and s2: "successively unit_step ([y] @ zs)"
    using r(4) unfolding d by (auto simp: successively_append_iff successively_Cons)
  have "successively unit_step ?q"
    using s1 s2 by (auto simp: successively_append_iff successively_Cons)
  moreover have "hd ?q = s" using r(2) d by (cases xs) auto
  moreover have "last ?q = g" using r(3) d by (cases zs) auto
  moreover have "list_all (is_path maze w h) (tl ?q)"
    using r(5) unfolding d by (cases xs) auto
  ultimately have "route maze w h s g ?q" by (simp add: route_def walk_def)
  from least[OF this] show False by (simp add: d)
qed

lemma dls_result_complete:
  assumes "rect_maze maze w h" "directions_ok dirs" "shortest_route maze w h s g q"
    and "int (length q) \<le> d + 1"
  shows "truthy (dls_result dirs s g maze w h d)"
proof -
  have "simple_route maze w h {} s g q"
    using assms(3) shortest_route_distinct[OF assms(3)]
    by (simp add: simple_route_def shortest_route_def)
  with assms(4) have "\<exists>q. simple_route maze w h {} s g q \<and> int (length q) \<le> d + 1" by blast
  with dls_complete_aux(1)[of maze w h dirs "[s]" "{}" s g d] assms(1,2)
  obtain p m where "dls dirs s g maze w h d = Inr (Some p, m)" "p \<noteq> []"
    by (auto simp: dls_def)
  then show ?thesis by (simp add: dls_result_def truthy_def)
qed

lemma ids_loop_performed:
  assumes "rect_maze maze w h"
  shows "\<exists>res n k. ids_loop dirs s g maze w h [i..j] acc = Inr (res, n)
      \<and> int k \<le> max 0 (j - i + 1)
      \<and> n = acc + sum_list (map (dls_nodes dirs s g maze w h) [i..i + int k - 1])
      \<and> list_all (\<lambda>d. \<not> truthy (dls_result dirs s g maze w h d)) [i..i + int k - 2]
      \<and> (if res = None
         then int k = max 0 (j - i + 1)
              \<and> list_all (\<lambda>d. \<not> truthy (dls_result dirs s g maze w h d)) [i..i + int k - 1]
         else 0 < k \<and> truthy res \<and> dls_result dirs s g maze w h (i + int k - 1) = res)"
proof (induction "nat (j - i + 1)" arbitrary: i acc)
  case 0
  then have "[i..j] = []" by simp
  moreover have "max 0 (j - i + 1) = 0" using 0 by simp
  ultimately show ?case by (rule_tac exI[of _ None], rule_tac exI[of _ acc], rule_tac exI[of _ 0]) simp
next
  case (Suc m)
  then have le: "i \<le> j" by simp
  then have up: "[i..j] = i # [i + 1..j]" by (simp add: upto_rec1)
  let ?r = "dls_result dirs s g maze w h i" and ?k = "dls_nodes dirs s g maze w h i"
  have d: "dls dirs s g maze w h i = Inr (?r, ?k)" by (rule dls_total[OF assms])
  show ?case
  proof (cases "truthy ?r")
    case True
    then have "ids_loop dirs s g maze w h [i..j] acc = Inr (?r, acc + ?k)"
      unfolding up using d by simp
    moreover have "?r \<noteq> None" using True by (auto simp: truthy_def split: option.splits)
    ultimately show ?thesis using True le
      by (rule_tac exI[of _ ?r], rule_tac exI[of _ "acc + ?k"], rule_tac exI[of _ 1]) auto
  next
    case False
    have m: "m = nat (j - (i + 1) + 1)" using Suc(2) by simp
    from Suc(1)[OF m, of "acc + ?k"] obtain res n k where
      r: "ids_loop dirs s g maze w h [i + 1..j] (acc + ?k) = Inr (res, n)"
      and k: "int k \<le> max 0 (j - (i + 1) + 1)"
      and n: "n = acc + ?k + sum_list (map (dls_nodes dirs s g maze w h) [i + 1..i + 1 + int k - 1])"
      and nt: "list_all (\<lambda>d. \<not> truthy (dls_result dirs s g maze w h d)) [i + 1..i + 1 + int k - 2]"
      and fin: "if res = None
         then int k = max 0 (j - (i + 1) + 1)
              \<and> list_all (\<lambda>d. \<not> truthy (dls_result dirs s g maze w h d)) [i + 1..i + 1 + int k - 1]
         else 0 < k \<and> truthy res \<and> dls_result dirs s g maze w h (i + 1 + int k - 1) = res"
      by blast
    have r': "ids_loop dirs s g maze w h [i..j] acc = Inr (res, n)"
      unfolding up using d False r by simp
    have u1: "[i..i + int (Suc k) - 1] = i # [i + 1..i + 1 + int k - 1]"
      by (simp add: upto_rec1)
    have u2: "[i..i + int (Suc k) - 2] = (if k = 0 then [] else i # [i + 1..i + 1 + int k - 2])"
      by (simp add: upto_rec1)
    have k': "int (Suc k) \<le> max 0 (j - i + 1)" using k le by simp
    have n': "n = acc + sum_list (map (dls_nodes dirs s g maze w h) [i..i + int (Suc k) - 1])"
      unfolding u1 using n by simp
    have nt': "list_all (\<lambda>d. \<not> truthy (dls_result dirs s g maze w h d)) [i..i + int (Suc k) - 2]"
      unfolding u2 using nt False by simp
    have fin': "if res = None
         then int (Suc k) = max 0 (j - i + 1)
              \<and> list_all (\<lambda>d. \<not> truthy (dls_result dirs s g maze w h d)) [i..i + int (Suc k) - 1]
         else 0 < Suc k \<and> truthy res \<and> dls_result dirs s g maze w h (i + int (Suc k) - 1) = res"
    proof (cases "res = None")
      case True
      with fin le have kk: "int k = j - i"
        and la: "list_all (\<lambda>d. \<not> truthy (dls_result dirs s g maze w h d)) [i + 1..i + 1 + int k - 1]"
        by auto
      have e: "i + 1 + int k - 1 = j" "i + int (Suc k) - 1 = j" using kk by simp_all
      have "list_all (\<lambda>d. \<not> truthy (dls_result dirs s g maze w h d)) [i..j]"
        unfolding up using la \<open>\<not> truthy ?r\<close> unfolding e by simp
      then show ?thesis using True kk le by (simp only: e) simp
    next
      case False
      with fin have "0 < k" "truthy res" "dls_result dirs s g maze w h (i + 1 + int k - 1) = res"
        by auto
      moreover have "i + int (Suc k) - 1 = i + 1 + int k - 1" by simp
      ultimately show ?thesis using False by (simp only: if_False) simp
    qed
    from r' k' n' nt' fin' show ?thesis by blast
  qed
qed

lemma ids_with_shortest:
  assumes ok: "directions_ok dirs" and rect: "rect_maze maze w h"
    and sh: "shortest_route maze w h s g q"
    and k: "int k \<le> max 0 max_depth"
    and nt: "list_all (\<lambda>d. \<not> truthy (dls_result dirs s g maze w h d)) [0..int k - 2]"
    and fin: "if res = None
         then int k = max 0 max_depth
              \<and> list_all (\<lambda>d. \<not> truthy (dls_result dirs s g maze w h d)) [0..int k - 1]
         else 0 < k \<and> truthy res \<and> dls_result dirs s g maze w h (int k - 1) = res"
  shows "if int (length q) \<le> max_depth
         then k = length q \<and> (\<exists>p. res = Some p \<and> shortest_route maze w h s g p)
         else res = None"
proof -
  from sh have rq: "route maze w h s g q"
    and least: "\<And>p. route maze w h s g p \<Longrightarrow> length q \<le> length p"
    by (auto simp: shortest_route_def)
  have qne: "q \<noteq> []" using route_nonempty[OF rq] .
  have L: "1 \<le> int (length q)" using qne by (cases q) auto
  have found: "\<And>p. res = Some p \<Longrightarrow> route maze w h s g p \<and> length p \<le> k \<and> 0 < k"
  proof -
    fix p assume p: "res = Some p"
    with fin have "0 < k" "dls_result dirs s g maze w h (int k - 1) = Some p" by auto
    with dls_result_sound[OF ok this(2)] show "route maze w h s g p \<and> length p \<le> k \<and> 0 < k"
      by simp
  qed
  show ?thesis
  proof (cases "int (length q) \<le> max_depth")
    case True
    have t: "truthy (dls_result dirs s g maze w h (int (length q) - 1))"
      by (rule dls_result_complete[OF rect ok sh]) simp
    have "res \<noteq> None"
    proof
      assume n: "res = None"
      with fin have kk: "int k = max 0 max_depth"
        and la: "list_all (\<lambda>d. \<not> truthy (dls_result dirs s g maze w h d)) [0..int k - 1]"
        by auto
      have "int (length q) - 1 \<in> set [0..int k - 1]" using kk True L qne by simp
      with la t show False by (simp add: list_all_iff)
    qed
    then obtain p where p: "res = Some p" by auto
    from found[OF p] have rp: "route maze w h s g p" and lp: "length p \<le> k" by simp_all
    from least[OF rp] have ql: "length q \<le> length p" .
    have "\<not> length q < k"
    proof
      assume "length q < k"
      then have "int (length q) - 1 \<in> set [0..int k - 2]" using L qne by simp
      with nt t show False by (simp add: list_all_iff)
    qed
    with ql lp have e: "k = length q" "length p = length q" by simp_all
    have "shortest_route maze w h s g p"
      using rp least e(2) by (simp add: shortest_route_def)
    with e(1) p True show ?thesis by simp
  next
    case False
    have "res = None"
    proof (rule ccontr)
      assume "res \<noteq> None"
      then obtain p where p: "res = Some p" by auto
      from found[OF p] have rp: "route maze w h s g p" and lp: "length p \<le> k" by simp_all
      from least[OF rp] lp k False L qne show False by simp
    qed
    with False show ?thesis by simp
  qed
qed

text \<open>
  C5. On a rectangular maze, with the directions some arrangement of the four unit
  steps, \<open>ids\<close> always returns. It performs \<open>k\<close> iterations, at the depths
  \<open>0, \<dots>, k - 1\<close>, and its count is the sum of the counts of \<open>dls\<close> at these depths;
  the iterations before the last found nothing; it returns \<open>None\<close> after all
  \<open>max_depth\<close> iterations found nothing, and otherwise returns what the last iteration
  found. If the shortest route from start to goal has \<open>L\<close> cells, then for
  \<open>max_depth \<ge> L\<close> it performs exactly \<open>L\<close> iterations and returns a shortest route, and
  for \<open>max_depth < L\<close> it returns \<open>None\<close>.
\<close>

theorem ids_shortest:
  assumes "rect_maze maze w h" and "directions_ok dirs"
  shows "\<exists>res n k. ids dirs start goal maze w h max_depth = Inr (res, n)
      \<and> int k \<le> max 0 max_depth
      \<and> n = sum_list (map (dls_nodes dirs start goal maze w h) [0..int k - 1])
      \<and> list_all (\<lambda>d. \<not> truthy (dls_result dirs start goal maze w h d)) [0..int k - 2]
      \<and> (if res = None
         then int k = max 0 max_depth
              \<and> list_all (\<lambda>d. \<not> truthy (dls_result dirs start goal maze w h d)) [0..int k - 1]
         else 0 < k \<and> truthy res \<and> dls_result dirs start goal maze w h (int k - 1) = res)
      \<and> (\<forall>q. shortest_route maze w h start goal q \<longrightarrow>
           (if int (length q) \<le> max_depth
            then k = length q \<and> (\<exists>p. res = Some p \<and> shortest_route maze w h start goal p)
            else res = None))"
proof -
  have "\<exists>res n k. ids dirs start goal maze w h max_depth = Inr (res, n)
      \<and> int k \<le> max 0 max_depth
      \<and> n = sum_list (map (dls_nodes dirs start goal maze w h) [0..int k - 1])
      \<and> list_all (\<lambda>d. \<not> truthy (dls_result dirs start goal maze w h d)) [0..int k - 2]
      \<and> (if res = None
         then int k = max 0 max_depth
              \<and> list_all (\<lambda>d. \<not> truthy (dls_result dirs start goal maze w h d)) [0..int k - 1]
         else 0 < k \<and> truthy res \<and> dls_result dirs start goal maze w h (int k - 1) = res)"
    using ids_loop_performed[OF assms(1), of dirs start goal 0 "max_depth - 1" 0]
    by (simp add: ids_def split del: if_split cong: if_cong)
  then obtain res n k where
    r: "ids dirs start goal maze w h max_depth = Inr (res, n)"
    and k: "int k \<le> max 0 max_depth"
    and n: "n = sum_list (map (dls_nodes dirs start goal maze w h) [0..int k - 1])"
    and nt: "list_all (\<lambda>d. \<not> truthy (dls_result dirs start goal maze w h d)) [0..int k - 2]"
    and fin: "if res = None
         then int k = max 0 max_depth
              \<and> list_all (\<lambda>d. \<not> truthy (dls_result dirs start goal maze w h d)) [0..int k - 1]
         else 0 < k \<and> truthy res \<and> dls_result dirs start goal maze w h (int k - 1) = res"
    by blast
  have "\<forall>q. shortest_route maze w h start goal q \<longrightarrow>
           (if int (length q) \<le> max_depth
            then k = length q \<and> (\<exists>p. res = Some p \<and> shortest_route maze w h start goal p)
            else res = None)"
    using ids_with_shortest[OF assms(2,1) _ k nt fin] by blast
  with r k n nt fin show ?thesis by blast
qed

lemma unit_steps_manhattan:
  assumes "successively unit_step p" "p \<noteq> []"
  shows "manhattan (hd p) (last p) + 1 \<le> int (length p)"
  using assms
proof (induction p rule: induct_list012)
  case 1
  then show ?case by simp
next
  case (2 x)
  then show ?case by (simp add: manhattan_def)
next
  case (3 x y zs)
  then have "manhattan y (last (y # zs)) + 1 \<le> int (length (y # zs))" by simp
  moreover have "unit_step x y" using 3(3) by simp
  then have "manhattan x (last (y # zs)) \<le> 1 + manhattan y (last (y # zs))"
    by (auto simp: manhattan_def unit_step_def)
  ultimately show ?case by simp
qed

lemma route_length_manhattan:
  assumes "route maze w h s g p"
  shows "manhattan s g + 1 \<le> int (length p)"
  using unit_steps_manhattan[of p] assms by (auto simp: route_def walk_def)


text \<open>
  The theorem on a ring of eight cells around a wall, from one corner to the opposite
  one: the shortest routes have five cells, and the five iterations count
  \<open>1 + 3 + 5 + 7 + 5 = 21\<close> nodes; with \<open>max_depth = 4\<close> nothing is found.
\<close>

theorem ids_shortest_witness:
  "rect_maze [[0,0,0],[0,1,0],[0,0,0]] 3 3 \<and> directions_ok DIRECTIONS
   \<and> shortest_route [[0,0,0],[0,1,0],[0,0,0]] 3 3 (0, 0) (2, 2)
         [(0, 0), (0, 1), (0, 2), (1, 2), (2, 2)]
   \<and> ids DIRECTIONS (0, 0) (2, 2) [[0,0,0],[0,1,0],[0,0,0]] 3 3 100
       = Inr (Some [(0, 0), (0, 1), (0, 2), (1, 2), (2, 2)], 21)
   \<and> sum_list (map (dls_nodes DIRECTIONS (0, 0) (2, 2) [[0,0,0],[0,1,0],[0,0,0]] 3 3) [0..4]) = 21
   \<and> ids DIRECTIONS (0, 0) (2, 2) [[0,0,0],[0,1,0],[0,0,0]] 3 3 4 = Inr (None, 16)
   \<and> sum_list (map (dls_nodes DIRECTIONS (0, 0) (2, 2) [[0,0,0],[0,1,0],[0,0,0]] 3 3) [0..3]) = 16"
proof -
  let ?m = "[[0,0,0],[0,1,0],[0,0,0::int]]"
  let ?q = "[(0, 0), (0, 1), (0, 2), (1, 2), (2, 2)] :: cell list"
  have rect: "rect_maze ?m 3 3" by (simp add: rect_maze_def)
  have ok: "directions_ok DIRECTIONS" by (simp add: directions_ok_def)
  have ip: "list_all (is_path ?m 3 3) (tl ?q)" by code_simp
  have us: "successively unit_step ?q" by (simp add: unit_step_def)
  have rq: "route ?m 3 3 (0, 0) (2, 2) ?q" using ip us by (simp add: route_def walk_def)
  have "length ?q \<le> length p" if "route ?m 3 3 (0, 0) (2, 2) p" for p
    using route_length_manhattan[OF that] by (simp add: manhattan_def)
  with rq have sh: "shortest_route ?m 3 3 (0, 0) (2, 2) ?q" by (simp add: shortest_route_def)
  have e1: "ids DIRECTIONS (0, 0) (2, 2) ?m 3 3 100 = Inr (Some ?q, 21)" by code_simp
  have e2: "ids DIRECTIONS (0, 0) (2, 2) ?m 3 3 4 = Inr (None, 16)" by code_simp
  from ids_shortest[OF rect ok, of "(0, 0)" "(2, 2)" 100] obtain res n k where
    a: "ids DIRECTIONS (0, 0) (2, 2) ?m 3 3 100 = Inr (res, n)"
    "n = sum_list (map (dls_nodes DIRECTIONS (0, 0) (2, 2) ?m 3 3) [0..int k - 1])"
    "\<forall>q. shortest_route ?m 3 3 (0, 0) (2, 2) q \<longrightarrow>
           (if int (length q) \<le> 100
            then k = length q \<and> (\<exists>p. res = Some p \<and> shortest_route ?m 3 3 (0, 0) (2, 2) p)
            else res = None)"
    by blast
  from a(3) sh have "k = 5" by auto
  with a(1,2) e1 have s1: "sum_list (map (dls_nodes DIRECTIONS (0, 0) (2, 2) ?m 3 3) [0..4]) = 21"
    by simp
  from ids_shortest[OF rect ok, of "(0, 0)" "(2, 2)" 4] obtain res' n' k' where
    b: "ids DIRECTIONS (0, 0) (2, 2) ?m 3 3 4 = Inr (res', n')"
    "n' = sum_list (map (dls_nodes DIRECTIONS (0, 0) (2, 2) ?m 3 3) [0..int k' - 1])"
    "if res' = None then int k' = max 0 4
        \<and> list_all (\<lambda>d. \<not> truthy (dls_result DIRECTIONS (0, 0) (2, 2) ?m 3 3 d)) [0..int k' - 1]
     else 0 < k' \<and> truthy res' \<and> dls_result DIRECTIONS (0, 0) (2, 2) ?m 3 3 (int k' - 1) = res'"
    by blast
  from b(1) e2 have "res' = None" "n' = 16" by simp_all
  with b(3) have "int k' = 4" by simp
  with b(2) \<open>n' = 16\<close> have s2: "sum_list (map (dls_nodes DIRECTIONS (0, 0) (2, 2) ?m 3 3) [0..3]) = 16"
    by simp
  from rect ok sh e1 s1 e2 s2 show ?thesis by blast
qed

end
